theory Spec2Isabelle
  imports Main "HOL-Library.Signed_Division" "HOL-Library.Multiset"
begin

section \<open>Constants of the file system\<close>

text \<open>
  The headers \<^verbatim>\<open>filehdr.h\<close>, \<^verbatim>\<open>directory.h\<close> and \<^verbatim>\<open>disk.h\<close> fix the constants
  \<^verbatim>\<open>SectorSize\<close>, \<^verbatim>\<open>NumDirect\<close>, \<^verbatim>\<open>NumIndirect\<close>, \<^verbatim>\<open>NumSectorForBlock\<close> and
  \<^verbatim>\<open>FileNameMaxLen\<close>; the headers are not among the sources. The functions below take
  the constants as a parameter.
\<close>

record config =
  SectorSize :: int
  NumDirect :: int
  NumIndirect :: int
  NumSectorForBlock :: int
  FileNameMaxLen :: nat

text \<open>A C \<^verbatim>\<open>int\<close> is 32 bits wide; signed overflow is undefined behaviour.\<close>

definition int32 :: "int \<Rightarrow> bool" where
  "int32 x \<longleftrightarrow> - 2147483648 \<le> x \<and> x \<le> 2147483647"

text \<open>
  What the program's constants satisfy: sizes are positive, and the two products the code
  forms from them are representable.
\<close>

definition config_ok :: "config \<Rightarrow> bool" where
  "config_ok c \<longleftrightarrow>
     0 < SectorSize c \<and> 0 \<le> NumDirect c \<and> 0 \<le> NumIndirect c \<and> 0 < NumSectorForBlock c \<and>
     int32 (SectorSize c * NumDirect c) \<and> int32 (SectorSize c * NumSectorForBlock c)"

text \<open>
  Modelled from the spec: the macro \<^verbatim>\<open>divRoundUp\<close> of \<^verbatim>\<open>utility.h\<close>, which is not
  among the sources. The spec gives \<open>numSectors = ceil(numBytes / SectorSize)\<close>; for a
  positive divisor that is the floor division below.
\<close>

definition divRoundUp :: "int \<Rightarrow> int \<Rightarrow> int" where
  "divRoundUp n s = (n + s - 1) div s"

section \<open>Outcomes that end the program\<close>

text \<open>
  \<^verbatim>\<open>ASSERT\<close> aborts the kernel; an array access outside the array and an overflowing
  signed operation are undefined behaviour. Each is a value of the model.
\<close>

datatype error = AssertionFailed | IndexOutOfRange | SignedOverflow

definition array_read :: "int list \<Rightarrow> int \<Rightarrow> error + int" where
  "array_read xs i = (if 0 \<le> i \<and> i < int (length xs) then Inr (xs ! nat i) else Inl IndexOutOfRange)"

definition array_write :: "int list \<Rightarrow> int \<Rightarrow> int \<Rightarrow> error + int list" where
  "array_write xs i v = (if 0 \<le> i \<and> i < int (length xs) then Inr (xs[nat i := v]) else Inl IndexOutOfRange)"

section \<open>The free-sector bitmap and the sector store\<close>

text \<open>
  Modelled from the spec: the class \<^verbatim>\<open>PersistentBitmap\<close> (bitmap.cc, pbitmap.cc), which is
  not among the sources. The spec: one bit per disk sector, 1 = allocated, with the
  operations \<open>FindAndSet() -> sectorNumber | -1 (no space)\<close>, \<open>Clear(sectorNumber)\<close>,
  \<open>Test(sectorNumber) -> bool\<close> and \<open>NumClear() -> count\<close>. The spec does not say which
  clear bit \<open>FindAndSet\<close> takes (the model takes the lowest) nor what \<open>Test\<close> and
  \<open>Clear\<close> do with a number that is no sector (the model answers \<open>False\<close> and changes
  nothing).
\<close>

type_synonym bitmap = "bool list"

definition NumClear :: "bitmap \<Rightarrow> int" where
  "NumClear fm = int (length (filter (\<lambda>b. \<not> b) fm))"

fun first_clear :: "bitmap \<Rightarrow> nat \<Rightarrow> int" where
  "first_clear [] i = - 1"
| "first_clear (b # bs) i = (if b then first_clear bs (Suc i) else int i)"

definition FindAndSet :: "bitmap \<Rightarrow> int \<times> bitmap" where
  "FindAndSet fm = (let s = first_clear fm 0 in if s < 0 then (- 1, fm) else (s, fm[nat s := True]))"

definition Test :: "bitmap \<Rightarrow> int \<Rightarrow> bool" where
  "Test fm s \<longleftrightarrow> 0 \<le> s \<and> s < int (length fm) \<and> fm ! nat s"

definition Clear :: "bitmap \<Rightarrow> int \<Rightarrow> bitmap" where
  "Clear fm s = (if 0 \<le> s \<and> s < int (length fm) then fm[nat s := False] else fm)"

text \<open>
  Modelled from the spec: the class \<^verbatim>\<open>SynchDisk\<close> (synchdisk.cc), which is not among the
  sources. The spec: \<open>ReadSector(sectorNumber, buffer)\<close> and
  \<open>WriteSector(sectorNumber, buffer)\<close> each transfer exactly one sector. A sector is held as
  the sequence of 4-byte integers it stores, the view the file header takes of it.
\<close>

type_synonym disk = "int \<Rightarrow> int list"

definition ReadSector :: "disk \<Rightarrow> int \<Rightarrow> int list" where
  "ReadSector d s = d s"

definition WriteSector :: "disk \<Rightarrow> int \<Rightarrow> int list \<Rightarrow> disk" where
  "WriteSector d s buf = d(s := buf)"

section \<open>The file header\<close>

record FileHeader =
  numBytes :: int
  numSectors :: int
  numDirectSectors :: int
  numIndirectSectors :: int
  DirectSectors :: "int list"
  IndirectSectors :: "int list"

text \<open>The constructor fills every field and both arrays with \<open>-1\<close>.\<close>

definition FileHeader_new :: "config \<Rightarrow> FileHeader" where
  "FileHeader_new c =
     \<lparr> numBytes = - 1, numSectors = - 1, numDirectSectors = - 1, numIndirectSectors = - 1,
       DirectSectors = replicate (nat (NumDirect c)) (- 1),
       IndirectSectors = replicate (nat (NumIndirect c)) (- 1) \<rparr>"

subsection \<open>Properties of Allocate and Deallocate\<close>

text \<open>The loop over the direct sectors: \<open>i\<close> is the loop counter, \<open>n\<close> is \<open>numDirectSectors\<close>.\<close>

function AllocDirect :: "int \<Rightarrow> int \<Rightarrow> int list \<Rightarrow> bitmap \<Rightarrow> error + (int list \<times> bitmap)" where
  "AllocDirect i n ds fm =
     (if i < n then
        (case FindAndSet fm of (s, fm') \<Rightarrow>
           (case array_write ds i s of
              Inl e \<Rightarrow> Inl e
            | Inr ds' \<Rightarrow> if s \<ge> 0 then AllocDirect (i + 1) n ds' fm' else Inl AssertionFailed))
      else Inr (ds, fm))"
  by pat_completeness auto
termination
  by (relation "measure (\<lambda>(i, n, ds, fm). nat (n - i))") auto

text \<open>
  The inner loop fills the local array \<^verbatim>\<open>SectorForIndirect\<close> from index 0 upwards; \<open>blk\<close>
  is the part of it written so far.
\<close>

function AllocBlock :: "int \<Rightarrow> int \<Rightarrow> int list \<Rightarrow> bitmap \<Rightarrow> error + (int list \<times> bitmap)" where
  "AllocBlock j n blk fm =
     (if j < n then
        (case FindAndSet fm of (s, fm') \<Rightarrow>
           if s \<ge> 0 then AllocBlock (j + 1) n (blk @ [s]) fm' else Inl AssertionFailed)
      else Inr (blk, fm))"
  by pat_completeness auto
termination
  by (relation "measure (\<lambda>(j, n, blk, fm). nat (n - j))") auto

function AllocIndirect ::
  "config \<Rightarrow> int \<Rightarrow> int \<Rightarrow> int list \<Rightarrow> bitmap \<Rightarrow> disk \<Rightarrow> error + (int list \<times> bitmap \<times> disk)" where
  "AllocIndirect c i n ins fm d =
     (if i < n then
        (case FindAndSet fm of (s, fm1) \<Rightarrow>
           (case array_write ins i s of
              Inl e \<Rightarrow> Inl e
            | Inr ins' \<Rightarrow>
                if s \<ge> 0 then
                  (case AllocBlock 0 (NumSectorForBlock c) [] fm1 of
                     Inl e \<Rightarrow> Inl e
                   | Inr (blk, fm2) \<Rightarrow> AllocIndirect c (i + 1) n ins' fm2 (WriteSector d s blk))
                else Inl AssertionFailed))
      else Inr (ins, fm, d))"
  by pat_completeness auto
termination
  by (relation "measure (\<lambda>(c, i, n, ins, fm, d). nat (n - i))") auto

text \<open>
  \<open>Allocate\<close> returns its boolean result together with the header, the bitmap and the
  sector store as the call leaves them.
\<close>

definition Allocate ::
  "config \<Rightarrow> FileHeader \<Rightarrow> bitmap \<Rightarrow> disk \<Rightarrow> int \<Rightarrow> error + (bool \<times> FileHeader \<times> bitmap \<times> disk)" where
  "Allocate c h fm d fileSize =
     (let h1 = h\<lparr>numBytes := fileSize, numSectors := divRoundUp fileSize (SectorSize c)\<rparr> in
      if NumClear fm < numSectors h1 then Inr (False, h1, fm, d)
      else
        let h2 = (if numSectors h1 > NumDirect c
                  then h1\<lparr>numDirectSectors := NumDirect c,
                          numIndirectSectors := divRoundUp (numSectors h1 - NumDirect c) (NumSectorForBlock c)\<rparr>
                  else h1\<lparr>numDirectSectors := numSectors h1, numIndirectSectors := 0\<rparr>) in
        (case AllocDirect 0 (numDirectSectors h2) (DirectSectors h2) fm of
           Inl e \<Rightarrow> Inl e
         | Inr (ds, fm1) \<Rightarrow>
             (case AllocIndirect c 0 (numIndirectSectors h2) (IndirectSectors h2) fm1 d of
                Inl e \<Rightarrow> Inl e
              | Inr (ins, fm2, d2) \<Rightarrow>
                  Inr (True, h2\<lparr>DirectSectors := ds, IndirectSectors := ins\<rparr>, fm2, d2))))"

subsection \<open>Deallocate\<close>

text \<open>
  \<open>Deallocate\<close> changes the bitmap only. Next to the bitmap the model returns the
  arguments of the calls of \<open>Clear\<close>, in the order of the calls. The loop over the
  direct sectors and the inner loop over the entries of an indirection block have the
  same body (assert \<open>Test\<close>, then \<open>Clear\<close>), over \<open>DirectSectors\<close> and over the
  block read from the store: \<open>DeallocDirect\<close> is both.
\<close>

function DeallocDirect ::
  "int \<Rightarrow> int \<Rightarrow> int list \<Rightarrow> bitmap \<Rightarrow> int list \<Rightarrow> error + (bitmap \<times> int list)" where
  "DeallocDirect i n ds fm cleared =
     (if i < n then
        (case array_read ds i of
           Inl e \<Rightarrow> Inl e
         | Inr s \<Rightarrow>
             if Test fm s then DeallocDirect (i + 1) n ds (Clear fm s) (cleared @ [s])
             else Inl AssertionFailed)
      else Inr (fm, cleared))"
  by pat_completeness auto
termination
  by (relation "measure (\<lambda>(i, n, ds, fm, cleared). nat (n - i))") auto

function DeallocIndirect ::
  "config \<Rightarrow> int \<Rightarrow> int \<Rightarrow> int list \<Rightarrow> bitmap \<Rightarrow> disk \<Rightarrow> int list \<Rightarrow> error + (bitmap \<times> int list)" where
  "DeallocIndirect c i n ins fm d cleared =
     (if i < n then
        (case array_read ins i of
           Inl e \<Rightarrow> Inl e
         | Inr s \<Rightarrow>
             if Test fm s then
               (case DeallocDirect 0 (NumSectorForBlock c) (ReadSector d s) fm cleared of
                  Inl e \<Rightarrow> Inl e
                | Inr (fm1, cleared1) \<Rightarrow>
                    DeallocIndirect c (i + 1) n ins (Clear fm1 s) d (cleared1 @ [s]))
             else Inl AssertionFailed)
      else Inr (fm, cleared))"
  by pat_completeness auto
termination
  by (relation "measure (\<lambda>(c, i, n, ins, fm, d, cleared). nat (n - i))") auto

definition Deallocate :: "config \<Rightarrow> FileHeader \<Rightarrow> bitmap \<Rightarrow> disk \<Rightarrow> error + (bitmap \<times> int list)" where
  "Deallocate c h fm d =
     (case DeallocDirect 0 (numDirectSectors h) (DirectSectors h) fm [] of
        Inl e \<Rightarrow> Inl e
      | Inr (fm1, cleared1) \<Rightarrow>
          DeallocIndirect c 0 (numIndirectSectors h) (IndirectSectors h) fm1 d cleared1)"

subsection \<open>Properties of FetchFrom\<close>

text \<open>
  Modelled from the spec: the order of the fields in \<^verbatim>\<open>class FileHeader\<close> (filehdr.h, not
  among the sources), which is the layout of the record that \<open>ReadSector\<close> copies over
  the object. The spec: 4-byte \<open>numBytes\<close>, \<open>numSectors\<close>, \<open>numDirectSectors\<close>,
  \<open>numIndirectSectors\<close>, then \<open>NumDirect\<close> direct and \<open>NumIndirect\<close> indirect sector
  numbers of 4 bytes each.
\<close>

definition decode_header :: "config \<Rightarrow> int list \<Rightarrow> FileHeader" where
  "decode_header c raw =
     \<lparr> numBytes = raw ! 0, numSectors = raw ! 1, numDirectSectors = raw ! 2,
       numIndirectSectors = raw ! 3,
       DirectSectors = take (nat (NumDirect c)) (drop 4 raw),
       IndirectSectors = take (nat (NumIndirect c)) (drop (4 + nat (NumDirect c)) raw) \<rparr>"

text \<open>The loop of \<open>FetchFrom\<close>; \<open>k\<close> is the running value of \<open>numIndirectSectors\<close>.\<close>

function FetchFrom_scan :: "config \<Rightarrow> int list \<Rightarrow> int \<Rightarrow> int" where
  "FetchFrom_scan c ins k =
     (if k < NumIndirect c then (if ins ! nat k = - 1 then k else FetchFrom_scan c ins (k + 1))
      else k)"
  by pat_completeness auto
termination
  by (relation "measure (\<lambda>(c, ins, k). nat (NumIndirect c - k))") auto

definition FetchFrom :: "config \<Rightarrow> disk \<Rightarrow> int \<Rightarrow> FileHeader" where
  "FetchFrom c d sector =
     (let h = decode_header c (ReadSector d sector);
          n = FetchFrom_scan c (IndirectSectors h) 0
      in h\<lparr>numIndirectSectors := n,
            numDirectSectors := (if n \<noteq> 0 then NumDirect c else numSectors h)\<rparr>)"

subsection \<open>Properties of ByteToSector\<close>

text \<open>
  The state outside a directory or a file header that a method can reach through the
  kernel object: the free-sector bitmap and the sector store.
\<close>

record machine =
  freeMap :: bitmap
  synchDisk :: disk

text \<open>
  \<open>ByteToSector\<close> returns the sector number together with the header and the machine
  state as the call leaves them. C++ division truncates towards zero (\<open>sdiv\<close>,
  \<open>smod\<close>).
\<close>

definition ByteToSector ::
  "config \<Rightarrow> FileHeader \<Rightarrow> machine \<Rightarrow> int \<Rightarrow> (error + int) \<times> FileHeader \<times> machine" where
  "ByteToSector c h m offset =
     (let lim = SectorSize c * numDirectSectors h in
      if \<not> int32 lim then (Inl SignedOverflow, h, m)
      else if offset < lim then (array_read (DirectSectors h) (offset sdiv SectorSize c), h, m)
      else
        let rel = offset - lim in
        if \<not> int32 rel then (Inl SignedOverflow, h, m)
        else
          (case array_read (IndirectSectors h) (rel sdiv (SectorSize c * NumSectorForBlock c)) of
             Inl e \<Rightarrow> (Inl e, h, m)
           | Inr s \<Rightarrow>
               (array_read (ReadSector (synchDisk m) s)
                  ((rel sdiv SectorSize c) smod NumSectorForBlock c), h, m)))"

section \<open>The directory\<close>

text \<open>
  A \<^verbatim>\<open>char *\<close> argument is the list of its characters; the string ends at the first
  \<open>NUL\<close> or at the end of the list. A character buffer is the list of its bytes.
\<close>

definition NUL :: char where
  "NUL = CHR 0x00"

definition char_at :: "char list \<Rightarrow> nat \<Rightarrow> char" where
  "char_at s k = (if k < length s then s ! k else NUL)"

text \<open>\<^verbatim>\<open>strncmp\<close> of the C library, from position \<open>k\<close> on, comparing at most \<open>n\<close> characters.\<close>

fun strncmp_from :: "char list \<Rightarrow> char list \<Rightarrow> nat \<Rightarrow> nat \<Rightarrow> int" where
  "strncmp_from a b k 0 = 0"
| "strncmp_from a b k (Suc n) =
     (if char_at a k \<noteq> char_at b k then int (of_char (char_at a k)) - int (of_char (char_at b k))
      else if char_at a k = NUL then 0
      else strncmp_from a b (Suc k) n)"

definition strncmp :: "char list \<Rightarrow> char list \<Rightarrow> nat \<Rightarrow> int" where
  "strncmp a b n = strncmp_from a b 0 n"

text \<open>
  \<^verbatim>\<open>strncpy\<close> of the C library writes exactly \<open>n\<close> bytes: the characters of the source up
  to its end, then \<open>NUL\<close>s. The bytes of the destination after the first \<open>n\<close> stay.
\<close>

definition strncpy :: "char list \<Rightarrow> char list \<Rightarrow> nat \<Rightarrow> char list" where
  "strncpy dst src n =
     (let s = take n (takeWhile (\<lambda>ch. ch \<noteq> NUL) src)
      in s @ replicate (n - length s) NUL @ drop n dst)"

record DirectoryEntry =
  inUse :: bool
  isDirectory :: bool
  sector :: int
  name :: "char list"

text \<open>
  Modelled from the spec: the size of the member \<^verbatim>\<open>name\<close>, declared in directory.h, which
  is not among the sources. The spec: a \<open>FileNameMaxLen\<close>-byte name buffer.
\<close>

definition DirectoryEntry_new :: "config \<Rightarrow> DirectoryEntry" where
  "DirectoryEntry_new c =
     \<lparr> inUse = False, isDirectory = False, sector = - 1, name = replicate (FileNameMaxLen c) NUL \<rparr>"

record Directory =
  tableSize :: int
  table :: "DirectoryEntry list"

definition Directory_new :: "config \<Rightarrow> int \<Rightarrow> Directory" where
  "Directory_new c sz = \<lparr> tableSize = sz, table = replicate (nat sz) (DirectoryEntry_new c) \<rparr>"

text \<open>The table has \<open>tableSize\<close> entries, as \<^verbatim>\<open>new DirectoryEntry[tableSize]\<close> makes it.\<close>

definition dir_ok :: "Directory \<Rightarrow> bool" where
  "dir_ok D \<longleftrightarrow> int (length (table D)) = tableSize D"

function FindIndex_loop :: "config \<Rightarrow> Directory \<Rightarrow> char list \<Rightarrow> int \<Rightarrow> int" where
  "FindIndex_loop c D nm i =
     (if i < tableSize D then
        (if inUse (table D ! nat i) \<and> strncmp (name (table D ! nat i)) nm (FileNameMaxLen c) = 0
         then i
         else FindIndex_loop c D nm (i + 1))
      else - 1)"
  by pat_completeness auto
termination
  by (relation "measure (\<lambda>(c, D, nm, i). nat (tableSize D - i))") auto

definition FindIndex :: "config \<Rightarrow> Directory \<Rightarrow> char list \<Rightarrow> int" where
  "FindIndex c D nm = FindIndex_loop c D nm 0"

definition Find :: "config \<Rightarrow> Directory \<Rightarrow> char list \<Rightarrow> int" where
  "Find c D nm = (let i = FindIndex c D nm in if i \<noteq> - 1 then sector (table D ! nat i) else - 1)"

function Add_loop ::
  "config \<Rightarrow> Directory \<Rightarrow> char list \<Rightarrow> int \<Rightarrow> bool \<Rightarrow> int \<Rightarrow> bool \<times> Directory" where
  "Add_loop c D nm newSector isDir i =
     (if i < tableSize D then
        (if \<not> inUse (table D ! nat i) then
           (True,
            D\<lparr>table := (table D)[nat i := (table D ! nat i)
                \<lparr>inUse := True,
                 name := strncpy (name (table D ! nat i)) nm (FileNameMaxLen c),
                 sector := newSector,
                 isDirectory := isDir\<rparr>]\<rparr>)
         else Add_loop c D nm newSector isDir (i + 1))
      else (False, D))"
  by pat_completeness auto
termination
  by (relation "measure (\<lambda>(c, D, nm, newSector, isDir, i). nat (tableSize D - i))") auto

definition Add :: "config \<Rightarrow> Directory \<Rightarrow> char list \<Rightarrow> int \<Rightarrow> bool \<Rightarrow> bool \<times> Directory" where
  "Add c D nm newSector isDir =
     (if FindIndex c D nm \<noteq> - 1 then (False, D) else Add_loop c D nm newSector isDir 0)"

text \<open>
  \<open>Remove\<close> returns its boolean result together with the directory and the machine state
  as the call leaves them.
\<close>

definition Remove ::
  "config \<Rightarrow> Directory \<Rightarrow> machine \<Rightarrow> char list \<Rightarrow> bool \<times> Directory \<times> machine" where
  "Remove c D m nm =
     (let i = FindIndex c D nm in
      if i = - 1 then (False, D, m)
      else
        (True,
         D\<lparr>table := (table D)[nat i := (table D ! nat i)
             \<lparr>inUse := False,
              name := replicate (length (name (table D ! nat i))) NUL\<rparr>]\<rparr>,
         m))"

section \<open>Notions used in the statements\<close>

text \<open>
  \<open>marks fm L fm'\<close>: the bitmap \<open>fm'\<close> is \<open>fm\<close> with exactly the sectors of \<open>L\<close> set,
  the sectors of \<open>L\<close> are sectors of the bitmap, pairwise different, and all clear in \<open>fm\<close>.
\<close>

definition marks :: "bitmap \<Rightarrow> int list \<Rightarrow> bitmap \<Rightarrow> bool" where
  "marks fm L fm' \<longleftrightarrow>
     distinct L \<and> (\<forall>s\<in>set L. 0 \<le> s \<and> s < int (length fm) \<and> \<not> fm ! nat s) \<and>
     length fm' = length fm \<and> (\<forall>k<length fm. fm' ! k = (fm ! k \<or> int k \<in> set L))"

text \<open>
  The sectors a header refers to: the direct sectors in use, then for each indirection block
  in use its own sector followed by the entries stored in it.
\<close>

definition header_sectors :: "FileHeader \<Rightarrow> disk \<Rightarrow> int list" where
  "header_sectors h d =
     map ((!) (DirectSectors h)) [0..<nat (numDirectSectors h)] @
     concat (map (\<lambda>k. IndirectSectors h ! k # d (IndirectSectors h ! k))
       [0..<nat (numIndirectSectors h)])"

text \<open>
  A configuration and an empty sector store for the concrete scenarios. The spec's scenario
  gives \<open>SectorSize = 128\<close>, \<open>NumDirect = 10\<close> and \<open>NumSectorForBlock = 32\<close>; with
  \<open>NumIndirect = 18\<close> the header record fills one sector.
\<close>

definition cfg :: config where
  "cfg = \<lparr> SectorSize = 128, NumDirect = 10, NumIndirect = 18, NumSectorForBlock = 32,
           FileNameMaxLen = 9 \<rparr>"

definition empty_disk :: disk where
  "empty_disk = (\<lambda>s. [])"

text \<open>A header with two direct sectors and one indirection block, and a store holding the block.\<close>

definition hdr_example :: FileHeader where
  "hdr_example = \<lparr> numBytes = 700, numSectors = 6, numDirectSectors = 2, numIndirectSectors = 1,
     DirectSectors = [3, 4], IndirectSectors = [7] \<rparr>"

definition machine_example :: machine where
  "machine_example = \<lparr> freeMap = [], synchDisk = empty_disk(7 := [10, 11, 12, 13, 14]) \<rparr>"

text \<open>The 32 integers of a sector that holds a header whose stored counts are 77 and 88.\<close>

definition raw_example :: "int list" where
  "raw_example = [300, 3, 77, 88] @ [5, 6, 7, - 1, - 1, - 1, - 1, - 1, - 1, - 1] @
     [20, 21, - 1, 22, - 1, - 1, - 1, - 1, - 1, - 1, - 1, - 1, - 1, - 1, - 1, - 1, - 1, - 1]"

text \<open>The string a \<^verbatim>\<open>char *\<close> points to: the characters before the first \<open>NUL\<close>.\<close>

definition cstr :: "char list \<Rightarrow> char list" where
  "cstr s = takeWhile (\<lambda>ch. ch \<noteq> NUL) s"

text \<open>The test of the loop in \<open>FindIndex\<close>: slot \<open>i\<close> is in use and carries the name.\<close>

definition matches :: "config \<Rightarrow> Directory \<Rightarrow> char list \<Rightarrow> int \<Rightarrow> bool" where
  "matches c D nm i \<longleftrightarrow>
     inUse (table D ! nat i) \<and> strncmp (name (table D ! nat i)) nm (FileNameMaxLen c) = 0"

text \<open>The number of slots in use.\<close>

definition used :: "Directory \<Rightarrow> nat" where
  "used D = length (filter inUse (table D))"

text \<open>A run of \<open>Add\<close> calls that stops at the first one that fails.\<close>

fun Add_all :: "config \<Rightarrow> Directory \<Rightarrow> (char list \<times> int \<times> bool) list \<Rightarrow> bool \<times> Directory" where
  "Add_all c D [] = (True, D)"
| "Add_all c D ((nm, s, b) # ops) =
     (case Add c D nm s b of (True, D') \<Rightarrow> Add_all c D' ops | (False, D') \<Rightarrow> (False, D'))"

text \<open>The entry \<open>Add\<close> leaves in the slot it takes, and the entry \<open>Remove\<close> leaves.\<close>

definition claimed :: "config \<Rightarrow> DirectoryEntry \<Rightarrow> char list \<Rightarrow> int \<Rightarrow> bool \<Rightarrow> DirectoryEntry" where
  "claimed c e nm s b =
     e\<lparr>inUse := True, name := strncpy (name e) nm (FileNameMaxLen c), sector := s, isDirectory := b\<rparr>"

definition released :: "DirectoryEntry \<Rightarrow> DirectoryEntry" where
  "released e = e\<lparr>inUse := False, name := replicate (length (name e)) NUL\<rparr>"

text \<open>Sequences of \<open>Add\<close> and \<open>Remove\<close> calls on one directory.\<close>

datatype dir_op = OpAdd "char list" int bool | OpRemove "char list"

fun apply_op :: "config \<Rightarrow> machine \<Rightarrow> Directory \<Rightarrow> dir_op \<Rightarrow> Directory" where
  "apply_op c m D (OpAdd nm s b) = snd (Add c D nm s b)"
| "apply_op c m D (OpRemove nm) = fst (snd (Remove c D m nm))"

definition slot_values :: "Directory \<Rightarrow> nat \<Rightarrow> int \<times> bool" where
  "slot_values D i = (sector (table D ! i), isDirectory (table D ! i))"

text \<open>
  \<open>last_in_use c m D g ops i\<close>: the sector and directory flag slot \<open>i\<close> had in the last of
  the directories passed through, from \<open>D\<close> on, in which the slot was in use; \<open>g i\<close> when
  there is none.
\<close>

fun last_in_use ::
  "config \<Rightarrow> machine \<Rightarrow> Directory \<Rightarrow> (nat \<Rightarrow> int \<times> bool) \<Rightarrow> dir_op list \<Rightarrow> nat \<Rightarrow> int \<times> bool" where
  "last_in_use c m D g [] = (\<lambda>i. if inUse (table D ! i) then slot_values D i else g i)"
| "last_in_use c m D g (op # ops) =
     last_in_use c m (apply_op c m D op)
       (\<lambda>i. if inUse (table D ! i) then slot_values D i else g i) ops"

text \<open>
  The invariant of the free slots: all names have \<open>FileNameMaxLen\<close> bytes, and a slot not
  in use has a name of \<open>NUL\<close>s and the values \<open>g\<close> records.
\<close>

definition free_slots_ok :: "config \<Rightarrow> Directory \<Rightarrow> (nat \<Rightarrow> int \<times> bool) \<Rightarrow> bool" where
  "free_slots_ok c D g \<longleftrightarrow>
     dir_ok D \<and>
     (\<forall>i<length (table D).
        length (name (table D ! i)) = FileNameMaxLen c \<and>
        (\<not> inUse (table D ! i) \<longrightarrow>
           name (table D ! i) = replicate (FileNameMaxLen c) NUL \<and> slot_values D i = g i))"

text \<open>A directory of three slots that holds the entry \<open>foo.txt\<close>.\<close>

definition dir_example :: Directory where
  "dir_example = snd (Add cfg (Directory_new cfg 3) ''foo.txt'' 17 False)"

section \<open>Properties of the bitmap and of the allocation loops\<close>

declare AllocDirect.simps [simp del] AllocBlock.simps [simp del] AllocIndirect.simps [simp del]
  DeallocDirect.simps [simp del] DeallocIndirect.simps [simp del] FetchFrom_scan.simps [simp del]
  FindIndex_loop.simps [simp del] Add_loop.simps [simp del]

lemma first_clear_neg: "first_clear fm i < 0 \<Longrightarrow> \<forall>b\<in>set fm. b"
  by (induction fm arbitrary: i) (auto split: if_splits)

lemma first_clear_nonneg:
  "0 \<le> first_clear fm i \<Longrightarrow> \<exists>k<length fm. first_clear fm i = int (i + k) \<and> \<not> fm ! k"
proof (induction fm arbitrary: i)
  case Nil
  then show ?case by simp
next
  case (Cons b bs)
  show ?case
  proof (cases b)
    case True
    with Cons.prems have "0 \<le> first_clear bs (Suc i)" by simp
    from Cons.IH [OF this] obtain k where "k < length bs" "first_clear bs (Suc i) = int (Suc i + k)" "\<not> bs ! k"
      by blast
    with True show ?thesis by (intro exI [of _ "Suc k"]) simp
  next
    case False
    then show ?thesis by (intro exI [of _ 0]) simp
  qed
qed

lemma FindAndSet_some:
  assumes "FindAndSet fm = (s, fm')" "0 \<le> s"
  shows "nat s < length fm \<and> \<not> fm ! nat s \<and> fm' = fm[nat s := True]"
proof -
  from assms have s: "s = first_clear fm 0" and fm': "fm' = fm[nat s := True]"
    by (auto simp: FindAndSet_def Let_def split: if_splits)
  from first_clear_nonneg [of fm 0] assms(2) s obtain k where "k < length fm" "s = int k" "\<not> fm ! k"
    by auto
  with fm' show ?thesis by simp
qed

lemma marks_Nil: "marks fm [] fm"
  by (simp add: marks_def)

lemma marks_FindAndSet: "FindAndSet fm = (s, fm') \<Longrightarrow> 0 \<le> s \<Longrightarrow> marks fm [s] fm'"
  using FindAndSet_some [of fm s fm'] by (auto simp: marks_def nth_list_update)

lemma marks_append: "marks fm L1 fm1 \<Longrightarrow> marks fm1 L2 fm2 \<Longrightarrow> marks fm (L1 @ L2) fm2"
  unfolding marks_def by (intro conjI) (auto, force+)

lemma marks_NumClear:
  assumes "marks fm L fm'"
  shows "NumClear fm' = NumClear fm - int (length L)"
proof -
  let ?A = "{k. k < length fm \<and> \<not> fm ! k}"
  let ?B = "{k. k < length fm \<and> \<not> fm' ! k}"
  have inj: "inj_on nat (set L)"
  proof (rule inj_onI)
    fix x y assume xy: "x \<in> set L" "y \<in> set L" "nat x = nat y"
    with assms have "0 \<le> x" "0 \<le> y" by (auto simp: marks_def)
    with xy show "x = y" by simp
  qed
  have sub: "nat ` set L \<subseteq> ?A"
    using assms by (auto simp: marks_def)
  have B: "?B = ?A - nat ` set L"
    using assms by (auto simp: marks_def image_iff) (metis nat_int)
  have "card (nat ` set L) = length L"
    using assms inj by (simp add: card_image distinct_card marks_def)
  moreover have "card ?B = card ?A - card (nat ` set L)"
    unfolding B using sub by (intro card_Diff_subset) (auto intro: finite_subset)
  moreover have "card (nat ` set L) \<le> card ?A"
    using sub by (intro card_mono) auto
  ultimately show ?thesis
    using assms by (simp add: NumClear_def length_filter_conv_card marks_def)
qed

lemma AllocDirect_ok:
  "AllocDirect i n ds fm = Inr (ds', fm') \<Longrightarrow> 0 \<le> i \<Longrightarrow>
     length ds' = length ds \<and> (i < n \<longrightarrow> n \<le> int (length ds)) \<and> (\<forall>k<nat i. ds' ! k = ds ! k) \<and>
     marks fm (map ((!) ds') [nat i..<nat n]) fm'"
proof (induction i n ds fm rule: AllocDirect.induct)
  case (1 i n ds fm)
  show ?case
  proof (cases "i < n")
    case False
    with "1.prems" have "ds' = ds" "fm' = fm"
      by (simp_all add: AllocDirect.simps)
    with False show ?thesis by (simp add: marks_Nil)
  next
    case True
    obtain s fm1 where fs: "FindAndSet fm = (s, fm1)"
      by (cases "FindAndSet fm")
    from "1.prems"(1) True fs obtain ds1 where
      aw: "array_write ds i s = Inr ds1" and s0: "0 \<le> s" and
      rec: "AllocDirect (i + 1) n ds1 fm1 = Inr (ds', fm')"
      by (subst (asm) AllocDirect.simps) (auto split: sum.splits if_splits)
    from aw have il: "i < int (length ds)" and ds1: "ds1 = ds[nat i := s]"
      by (auto simp: array_write_def split: if_splits)
    from "1.IH" [OF True fs [symmetric] aw s0 rec] "1.prems"(2)
    have ih: "length ds' = length ds1" "i + 1 < n \<longrightarrow> n \<le> int (length ds1)"
      "\<forall>k<nat (i + 1). ds' ! k = ds1 ! k" "marks fm1 (map ((!) ds') [nat (i + 1)..<nat n]) fm'"
      by auto
    from ih(3) "1.prems"(2) il ds1 have at_i: "ds' ! nat i = s"
      by (auto simp: nat_add_distrib)
    from ih(3) "1.prems"(2) ds1 have below: "\<forall>k<nat i. ds' ! k = ds ! k"
      by (auto simp: nat_add_distrib)
    have upt: "[nat i..<nat n] = nat i # [nat (i + 1)..<nat n]"
      using True "1.prems"(2) by (simp add: upt_conv_Cons nat_add_distrib)
    have "marks fm ([s] @ map ((!) ds') [nat (i + 1)..<nat n]) fm'"
      by (rule marks_append [OF marks_FindAndSet [OF fs s0] ih(4)])
    with upt at_i have "marks fm (map ((!) ds') [nat i..<nat n]) fm'" by simp
    moreover from ih(2) il ds1 True have "n \<le> int (length ds)" by (cases "i + 1 < n") auto
    ultimately show ?thesis using ih(1) ds1 below by simp
  qed
qed

lemma AllocBlock_ok:
  "AllocBlock j n blk fm = Inr (blk', fm') \<Longrightarrow>
     \<exists>L. blk' = blk @ L \<and> int (length L) = max 0 (n - j) \<and> marks fm L fm'"
proof (induction j n blk fm rule: AllocBlock.induct)
  case (1 j n blk fm)
  show ?case
  proof (cases "j < n")
    case False
    with "1.prems" have "blk' = blk" "fm' = fm"
      by (simp_all add: AllocBlock.simps)
    with False show ?thesis by (simp add: marks_Nil)
  next
    case True
    obtain s fm1 where fs: "FindAndSet fm = (s, fm1)"
      by (cases "FindAndSet fm")
    from "1.prems"(1) True fs have s0: "0 \<le> s" and
      rec: "AllocBlock (j + 1) n (blk @ [s]) fm1 = Inr (blk', fm')"
      by (subst (asm) AllocBlock.simps, auto split: if_splits)+
    from "1.IH" [OF True fs [symmetric] s0 rec] obtain L where
      L: "blk' = (blk @ [s]) @ L" "int (length L) = max 0 (n - (j + 1))" "marks fm1 L fm'"
      by blast
    have "marks fm ([s] @ L) fm'"
      by (rule marks_append [OF marks_FindAndSet [OF fs s0] L(3)])
    with L(1,2) True show ?thesis
      by (intro exI [of _ "s # L"]) auto
  qed
qed

lemma marks_set: "marks fm L fm' \<Longrightarrow> s \<in> set L \<Longrightarrow> 0 \<le> s \<and> nat s < length fm' \<and> fm' ! nat s"
  by (auto simp: marks_def)

lemma marks_keeps: "marks fm L fm' \<Longrightarrow> nat s < length fm \<Longrightarrow> fm ! nat s \<Longrightarrow> nat s < length fm' \<and> fm' ! nat s"
  by (auto simp: marks_def)

lemma marks_clear: "marks fm L fm' \<Longrightarrow> s \<in> set L \<Longrightarrow> 0 \<le> s \<and> nat s < length fm \<and> \<not> fm ! nat s"
  by (auto simp: marks_def)

lemma AllocIndirect_ok:
  "AllocIndirect c i n ins fm d = Inr (ins', fm', d') \<Longrightarrow> 0 \<le> i \<Longrightarrow>
     length ins' = length ins \<and> (i < n \<longrightarrow> n \<le> int (length ins)) \<and> (\<forall>k<nat i. ins' ! k = ins ! k) \<and>
     marks fm (concat (map (\<lambda>k. ins' ! k # d' (ins' ! k)) [nat i..<nat n])) fm' \<and>
     (\<forall>k. nat i \<le> k \<and> k < nat n \<longrightarrow> int (length (d' (ins' ! k))) = max 0 (NumSectorForBlock c)) \<and>
     (\<forall>s. s \<notin> (\<lambda>k. ins' ! k) ` {nat i..<nat n} \<longrightarrow> d' s = d s)"
proof (induction c i n ins fm d rule: AllocIndirect.induct)
  case (1 c i n ins fm d)
  show ?case
  proof (cases "i < n")
    case False
    with "1.prems" have "ins' = ins" "fm' = fm" "d' = d"
      by (simp_all add: AllocIndirect.simps)
    moreover from False have "nat n \<le> nat i" by simp
    ultimately show ?thesis using False by (auto simp: marks_Nil)
  next
    case True
    obtain s fm1 where fs: "FindAndSet fm = (s, fm1)"
      by (cases "FindAndSet fm")
    from "1.prems"(1) True fs obtain ins1 blk fm2 where
      aw: "array_write ins i s = Inr ins1" and s0: "0 \<le> s" and
      ab: "AllocBlock 0 (NumSectorForBlock c) [] fm1 = Inr (blk, fm2)" and
      rec: "AllocIndirect c (i + 1) n ins1 fm2 (WriteSector d s blk) = Inr (ins', fm', d')"
      by (subst (asm) AllocIndirect.simps) (auto split: sum.splits if_splits)
    from aw have il: "i < int (length ins)" and ins1: "ins1 = ins[nat i := s]"
      by (auto simp: array_write_def split: if_splits)
    from AllocBlock_ok [OF ab] have blk: "int (length blk) = max 0 (NumSectorForBlock c)" "marks fm1 blk fm2"
      by auto
    let ?f = "\<lambda>k. ins' ! k # d' (ins' ! k)"
    let ?L' = "concat (map ?f [nat (i + 1)..<nat n])"
    from "1.IH" [OF True fs [symmetric] aw s0 ab refl rec] "1.prems"(2)
    have ih: "length ins' = length ins1" "i + 1 < n \<longrightarrow> n \<le> int (length ins1)"
      "\<forall>k<nat (i + 1). ins' ! k = ins1 ! k" "marks fm2 ?L' fm'"
      "\<forall>k. nat (i + 1) \<le> k \<and> k < nat n \<longrightarrow> int (length (d' (ins' ! k))) = max 0 (NumSectorForBlock c)"
      "\<forall>t. t \<notin> (\<lambda>k. ins' ! k) ` {nat (i + 1)..<nat n} \<longrightarrow> d' t = WriteSector d s blk t"
      by auto
    from ih(3) "1.prems"(2) il ins1 have at_i: "ins' ! nat i = s"
      by (auto simp: nat_add_distrib)
    from ih(3) "1.prems"(2) ins1 have below: "\<forall>k<nat i. ins' ! k = ins ! k"
      by (auto simp: nat_add_distrib)
    have upt: "[nat i..<nat n] = nat i # [nat (i + 1)..<nat n]"
      using True "1.prems"(2) by (simp add: upt_conv_Cons nat_add_distrib)
    have m1: "marks fm [s] fm1" by (rule marks_FindAndSet [OF fs s0])
    from marks_set [OF m1, of s] have "nat s < length fm1" "fm1 ! nat s" by auto
    from marks_keeps [OF blk(2) this] have s_set: "fm2 ! nat s" ..
    have s_notin: "s \<notin> (\<lambda>k. ins' ! k) ` {nat (i + 1)..<nat n}"
    proof
      assume "s \<in> (\<lambda>k. ins' ! k) ` {nat (i + 1)..<nat n}"
      then have "s \<in> set ?L'" by auto
      from marks_clear [OF ih(4) this] s_set show False by simp
    qed
    with ih(6) have d's: "d' s = blk" by (simp add: WriteSector_def)
    have "marks fm ([s] @ blk @ ?L') fm'"
      by (rule marks_append [OF m1 marks_append [OF blk(2) ih(4)]])
    with upt at_i d's have A: "marks fm (concat (map ?f [nat i..<nat n])) fm'" by simp
    have B: "\<forall>k. nat i \<le> k \<and> k < nat n \<longrightarrow> int (length (d' (ins' ! k))) = max 0 (NumSectorForBlock c)"
    proof (intro allI impI)
      fix k assume k: "nat i \<le> k \<and> k < nat n"
      show "int (length (d' (ins' ! k))) = max 0 (NumSectorForBlock c)"
      proof (cases "k = nat i")
        case True
        with at_i d's blk(1) show ?thesis by simp
      next
        case False
        with k "1.prems"(2) have "nat (i + 1) \<le> k \<and> k < nat n" by (simp add: nat_add_distrib)
        with ih(5) show ?thesis by blast
      qed
    qed
    have C: "\<forall>t. t \<notin> (\<lambda>k. ins' ! k) ` {nat i..<nat n} \<longrightarrow> d' t = d t"
    proof (intro allI impI)
      fix t assume t: "t \<notin> (\<lambda>k. ins' ! k) ` {nat i..<nat n}"
      have "{nat i..<nat n} = insert (nat i) {nat (i + 1)..<nat n}"
        using True "1.prems"(2) by (auto simp: nat_add_distrib)
      with t at_i have "t \<noteq> s" "t \<notin> (\<lambda>k. ins' ! k) ` {nat (i + 1)..<nat n}" by auto
      with ih(6) show "d' t = d t" by (simp add: WriteSector_def)
    qed
    from ih(2) il ins1 True have "n \<le> int (length ins)" by (cases "i + 1 < n") auto
    with A B C ih(1) ins1 below show ?thesis by simp
  qed
qed

lemma Test_Clear: "Test (Clear fm s) t \<longleftrightarrow> Test fm t \<and> t \<noteq> s"
  by (auto simp: Test_def Clear_def nth_list_update split: if_splits)

lemma length_Clear: "length (Clear fm s) = length fm"
  by (simp add: Clear_def)

lemma Test_foldl_Clear: "Test (foldl Clear fm M) t \<longleftrightarrow> Test fm t \<and> t \<notin> set M"
  by (induction M arbitrary: fm) (auto simp: Test_Clear)

lemma length_foldl_Clear: "length (foldl Clear fm M) = length fm"
  by (induction M arbitrary: fm) (auto simp: length_Clear)

lemma DeallocDirect_ok:
  "0 \<le> i \<Longrightarrow> (i < n \<longrightarrow> n \<le> int (length ds)) \<Longrightarrow> distinct (map ((!) ds) [nat i..<nat n]) \<Longrightarrow>
   \<forall>s\<in>set (map ((!) ds) [nat i..<nat n]). Test fm s \<Longrightarrow>
   DeallocDirect i n ds fm cl =
     Inr (foldl Clear fm (map ((!) ds) [nat i..<nat n]), cl @ map ((!) ds) [nat i..<nat n])"
proof (induction i n ds fm cl rule: DeallocDirect.induct)
  case (1 i n ds fm cl)
  show ?case
  proof (cases "i < n")
    case False
    then show ?thesis by (simp add: DeallocDirect.simps)
  next
    case True
    let ?s = "ds ! nat i"
    have upt: "[nat i..<nat n] = nat i # [nat (i + 1)..<nat n]"
      using True "1.prems"(1) by (simp add: upt_conv_Cons nat_add_distrib)
    from True "1.prems"(1,2) have ar: "array_read ds i = Inr ?s"
      by (simp add: array_read_def)
    from "1.prems"(4) upt have ts: "Test fm ?s" by simp
    have notin: "?s \<notin> set (map ((!) ds) [nat (i + 1)..<nat n])"
      and dist: "distinct (map ((!) ds) [nat (i + 1)..<nat n])"
      using "1.prems"(3) unfolding upt by simp_all
    have rest: "\<forall>s\<in>set (map ((!) ds) [nat (i + 1)..<nat n]). Test (Clear fm ?s) s"
    proof
      fix t assume t: "t \<in> set (map ((!) ds) [nat (i + 1)..<nat n])"
      with "1.prems"(4) upt have "Test fm t" by auto
      moreover from t notin have "t \<noteq> ?s" by blast
      ultimately show "Test (Clear fm ?s) t" by (simp add: Test_Clear)
    qed
    have "DeallocDirect (i + 1) n ds (Clear fm ?s) (cl @ [?s]) =
        Inr (foldl Clear (Clear fm ?s) (map ((!) ds) [nat (i + 1)..<nat n]),
             (cl @ [?s]) @ map ((!) ds) [nat (i + 1)..<nat n])"
      using "1.prems"(1,2) dist True
      by (intro "1.IH" [OF True ar ts] rest) auto
    with True ar ts upt show ?thesis
      by (subst DeallocDirect.simps) simp
  qed
qed

lemma DeallocIndirect_ok:
  "0 \<le> i \<Longrightarrow> (i < n \<longrightarrow> n \<le> int (length ins)) \<Longrightarrow>
   distinct (concat (map (\<lambda>k. d (ins ! k) @ [ins ! k]) [nat i..<nat n])) \<Longrightarrow>
   \<forall>s\<in>set (concat (map (\<lambda>k. d (ins ! k) @ [ins ! k]) [nat i..<nat n])). Test fm s \<Longrightarrow>
   \<forall>k. nat i \<le> k \<and> k < nat n \<longrightarrow> int (length (d (ins ! k))) = max 0 (NumSectorForBlock c) \<Longrightarrow>
   DeallocIndirect c i n ins fm d cl =
     Inr (foldl Clear fm (concat (map (\<lambda>k. d (ins ! k) @ [ins ! k]) [nat i..<nat n])),
          cl @ concat (map (\<lambda>k. d (ins ! k) @ [ins ! k]) [nat i..<nat n]))"
proof (induction c i n ins fm d cl rule: DeallocIndirect.induct)
  case (1 c i n ins fm d cl)
  let ?g = "\<lambda>k. d (ins ! k) @ [ins ! k]"
  show ?case
  proof (cases "i < n")
    case False
    then show ?thesis by (simp add: DeallocIndirect.simps)
  next
    case True
    let ?s = "ins ! nat i"
    let ?blk = "d ?s"
    let ?rest = "concat (map ?g [nat (i + 1)..<nat n])"
    have upt: "[nat i..<nat n] = nat i # [nat (i + 1)..<nat n]"
      using True "1.prems"(1) by (simp add: upt_conv_Cons nat_add_distrib)
    from True "1.prems"(1,2) have ar: "array_read ins i = Inr ?s"
      by (simp add: array_read_def)
    from "1.prems"(4) upt have ts: "Test fm ?s" by simp
    from "1.prems"(5) True "1.prems"(1) have len: "int (length ?blk) = max 0 (NumSectorForBlock c)"
      by simp
    then have "nat (NumSectorForBlock c) = length ?blk" by linarith
    then have whole: "map ((!) ?blk) [nat 0..<nat (NumSectorForBlock c)] = ?blk"
      by (simp add: map_nth)
    have dd: "DeallocDirect 0 (NumSectorForBlock c) (ReadSector d ?s) fm cl =
        Inr (foldl Clear fm ?blk, cl @ ?blk)"
      using DeallocDirect_ok [of 0 "NumSectorForBlock c" ?blk fm cl] whole len "1.prems"(3,4) upt
      by (simp add: ReadSector_def)
    have split: "distinct (?blk @ [?s] @ ?rest)"
      using "1.prems"(3) unfolding upt by simp
    then have dist: "distinct ?rest" by simp
    have rest: "\<forall>s\<in>set ?rest. Test (Clear (foldl Clear fm ?blk) ?s) s"
    proof
      fix t assume t: "t \<in> set ?rest"
      with "1.prems"(4) upt have "Test fm t" by auto
      moreover from t split have "t \<notin> set ?blk" "t \<noteq> ?s" by auto
      ultimately show "Test (Clear (foldl Clear fm ?blk) ?s) t"
        by (simp add: Test_Clear Test_foldl_Clear)
    qed
    have "DeallocIndirect c (i + 1) n ins (Clear (foldl Clear fm ?blk) ?s) d ((cl @ ?blk) @ [?s]) =
        Inr (foldl Clear (Clear (foldl Clear fm ?blk) ?s) ?rest, ((cl @ ?blk) @ [?s]) @ ?rest)"
      using "1.prems"(1,2,5) dist True
      by (intro "1.IH" [OF True ar ts dd refl] rest) auto
    with True ar ts dd upt show ?thesis
      by (subst DeallocIndirect.simps) simp
  qed
qed

lemma Allocate_ok:
  assumes "Allocate c h fm d fileSize = Inr (True, h', fm', d')"
  shows "numBytes h' = fileSize"
    and "numSectors h' = divRoundUp fileSize (SectorSize c)"
    and "numSectors h' \<le> NumClear fm"
    and "numDirectSectors h' = (if NumDirect c < numSectors h' then NumDirect c else numSectors h')"
    and "numIndirectSectors h' =
           (if NumDirect c < numSectors h'
            then divRoundUp (numSectors h' - NumDirect c) (NumSectorForBlock c) else 0)"
    and "marks fm (header_sectors h' d') fm'"
    and "0 < numDirectSectors h' \<longrightarrow> numDirectSectors h' \<le> int (length (DirectSectors h'))"
    and "0 < numIndirectSectors h' \<longrightarrow> numIndirectSectors h' \<le> int (length (IndirectSectors h'))"
    and "\<forall>k<nat (numIndirectSectors h'). int (length (d' (IndirectSectors h' ! k))) = max 0 (NumSectorForBlock c)"
    and "\<exists>fm1. AllocDirect 0 (numDirectSectors h') (DirectSectors h) fm = Inr (DirectSectors h', fm1) \<and>
           AllocIndirect c 0 (numIndirectSectors h') (IndirectSectors h) fm1 d = Inr (IndirectSectors h', fm', d')"
proof -
  define ns where "ns = divRoundUp fileSize (SectorSize c)"
  define nd where "nd = (if NumDirect c < ns then NumDirect c else ns)"
  define ni where "ni = (if NumDirect c < ns then divRoundUp (ns - NumDirect c) (NumSectorForBlock c) else 0)"
  from assms have enough: "ns \<le> NumClear fm"
    by (auto simp: Allocate_def Let_def ns_def split: if_splits)
  define h2 where "h2 = h\<lparr>numBytes := fileSize, numSectors := ns, numDirectSectors := nd,
      numIndirectSectors := ni\<rparr>"
  have step: "Allocate c h fm d fileSize =
      (case AllocDirect 0 (numDirectSectors h2) (DirectSectors h2) fm of
         Inl e \<Rightarrow> Inl e
       | Inr (ds, fm1) \<Rightarrow>
           (case AllocIndirect c 0 (numIndirectSectors h2) (IndirectSectors h2) fm1 d of
              Inl e \<Rightarrow> Inl e
            | Inr (ins, fm2, d2) \<Rightarrow>
                Inr (True, h2\<lparr>DirectSectors := ds, IndirectSectors := ins\<rparr>, fm2, d2)))"
  proof (cases "NumDirect c < ns")
    case True
    then have "h2 = h\<lparr>numBytes := fileSize, numSectors := ns\<rparr>\<lparr>numDirectSectors := NumDirect c,
        numIndirectSectors := divRoundUp (ns - NumDirect c) (NumSectorForBlock c)\<rparr>"
      by (simp add: h2_def nd_def ni_def)
    with True enough show ?thesis
      unfolding Allocate_def Let_def ns_def by (simp split: sum.splits prod.splits)
  next
    case False
    then have "h2 = h\<lparr>numBytes := fileSize, numSectors := ns\<rparr>\<lparr>numDirectSectors := ns,
        numIndirectSectors := 0\<rparr>"
      by (simp add: h2_def nd_def ni_def)
    with False enough show ?thesis
      unfolding Allocate_def Let_def ns_def by (simp split: sum.splits prod.splits)
  qed
  have sel: "numDirectSectors h2 = nd" "numIndirectSectors h2 = ni"
    "DirectSectors h2 = DirectSectors h" "IndirectSectors h2 = IndirectSectors h"
    by (simp_all add: h2_def)
  note unf = step [unfolded sel]
  obtain ds fm1 where ad: "AllocDirect 0 nd (DirectSectors h) fm = Inr (ds, fm1)"
    using assms unfolding unf by (cases "AllocDirect 0 nd (DirectSectors h) fm") auto
  obtain ins fm2 d2 where ai0: "AllocIndirect c 0 ni (IndirectSectors h) fm1 d = Inr (ins, fm2, d2)"
    using assms unfolding unf ad
    by (cases "AllocIndirect c 0 ni (IndirectSectors h) fm1 d") auto
  from assms have res: "h' = h2\<lparr>DirectSectors := ds, IndirectSectors := ins\<rparr>" "fm' = fm2" "d' = d2"
    using ai0 unfolding unf ad by simp_all
  then have h': "numBytes h' = fileSize" "numSectors h' = ns" "numDirectSectors h' = nd"
        "numIndirectSectors h' = ni" "DirectSectors h' = ds"
    and ai: "AllocIndirect c 0 ni (IndirectSectors h) fm1 d = Inr (IndirectSectors h', fm', d')"
    using ai0 by (simp_all add: h2_def)
  from AllocDirect_ok [OF ad] have d1: "length ds = length (DirectSectors h)"
    "0 < nd \<longrightarrow> nd \<le> int (length (DirectSectors h))" "marks fm (map ((!) ds) [0..<nat nd]) fm1"
    by auto
  from AllocIndirect_ok [OF ai] have i1: "length (IndirectSectors h') = length (IndirectSectors h)"
    "0 < ni \<longrightarrow> ni \<le> int (length (IndirectSectors h))"
    "marks fm1 (concat (map (\<lambda>k. IndirectSectors h' ! k # d' (IndirectSectors h' ! k)) [0..<nat ni])) fm'"
    "\<forall>k<nat ni. int (length (d' (IndirectSectors h' ! k))) = max 0 (NumSectorForBlock c)"
    by auto
  show "numBytes h' = fileSize" by (rule h'(1))
  show "numSectors h' = divRoundUp fileSize (SectorSize c)" using h'(2) by (simp add: ns_def)
  show "numSectors h' \<le> NumClear fm" using enough h'(2) by simp
  show "numDirectSectors h' = (if NumDirect c < numSectors h' then NumDirect c else numSectors h')"
    using h'(2,3) by (simp add: nd_def)
  show "numIndirectSectors h' =
           (if NumDirect c < numSectors h'
            then divRoundUp (numSectors h' - NumDirect c) (NumSectorForBlock c) else 0)"
    using h'(2,4) by (simp add: ni_def)
  show "marks fm (header_sectors h' d') fm'"
    unfolding header_sectors_def h' by (rule marks_append [OF d1(3) i1(3)])
  show "0 < numDirectSectors h' \<longrightarrow> numDirectSectors h' \<le> int (length (DirectSectors h'))"
    using d1(1,2) h'(3,5) by simp
  show "0 < numIndirectSectors h' \<longrightarrow> numIndirectSectors h' \<le> int (length (IndirectSectors h'))"
    using i1(1,2) h'(4) by simp
  show "\<forall>k<nat (numIndirectSectors h'). int (length (d' (IndirectSectors h' ! k))) = max 0 (NumSectorForBlock c)"
    using i1(4) h'(4) by simp
  show "\<exists>fm1. AllocDirect 0 (numDirectSectors h') (DirectSectors h) fm = Inr (DirectSectors h', fm1) \<and>
           AllocIndirect c 0 (numIndirectSectors h') (IndirectSectors h) fm1 d = Inr (IndirectSectors h', fm', d')"
    using ad ai h'(3,4,5) by auto
qed

lemma foldl_Clear_nth:
  "k < length fm \<Longrightarrow> foldl Clear fm M ! k = (fm ! k \<and> int k \<notin> set M)"
  using Test_foldl_Clear [of fm M "int k"] by (simp add: Test_def length_foldl_Clear)

lemma marks_undo:
  assumes "marks fm L fm'" "set M = set L"
  shows "foldl Clear fm' M = fm"
proof (rule nth_equalityI)
  show "length (foldl Clear fm' M) = length fm"
    using assms by (simp add: length_foldl_Clear marks_def)
next
  fix k assume "k < length (foldl Clear fm' M)"
  then have k: "k < length fm" "k < length fm'"
    using assms by (simp_all add: length_foldl_Clear marks_def)
  from assms k(1) have "fm' ! k = (fm ! k \<or> int k \<in> set L)" "int k \<in> set L \<longrightarrow> \<not> fm ! k"
    by (auto simp: marks_def)
  with assms(2) k(2) show "foldl Clear fm' M ! k = fm ! k"
    by (auto simp: foldl_Clear_nth)
qed

lemma mset_swap_groups:
  "mset (concat (map (\<lambda>k. y k @ [x k]) ks)) = mset (concat (map (\<lambda>k. x k # y k) ks))"
  by (induction ks) auto

lemma marks_exactly:
  assumes "marks fm L fm'"
  shows "set L = {s. 0 \<le> s \<and> s < int (length fm) \<and> fm' ! nat s \<and> \<not> fm ! nat s}"
proof (intro set_eqI iffI)
  fix s assume s: "s \<in> set L"
  from marks_clear [OF assms s] marks_set [OF assms s]
  show "s \<in> {s. 0 \<le> s \<and> s < int (length fm) \<and> fm' ! nat s \<and> \<not> fm ! nat s}"
    by auto
next
  fix s assume "s \<in> {s. 0 \<le> s \<and> s < int (length fm) \<and> fm' ! nat s \<and> \<not> fm ! nat s}"
  then have s: "0 \<le> s" "nat s < length fm" "fm' ! nat s" "\<not> fm ! nat s" by auto
  from assms s(2) have "fm' ! nat s = (fm ! nat s \<or> int (nat s) \<in> set L)"
    unfolding marks_def by blast
  with s show "s \<in> set L" by simp
qed

section \<open>Properties of Allocate and Deallocate\<close>

text \<open>
  Claim C1, as amended. When the bitmap has fewer free sectors than
  \<open>numSectors = ceil(fileSize / SectorSize)\<close>, \<open>Allocate\<close> returns false and leaves the
  bitmap, the sector store and the fields \<open>numDirectSectors\<close>, \<open>numIndirectSectors\<close>,
  \<open>DirectSectors\<close> and \<open>IndirectSectors\<close> of the header as they were; \<open>numBytes\<close> and
  \<open>numSectors\<close> hold \<open>fileSize\<close> and \<open>ceil(fileSize / SectorSize)\<close> afterwards, since the
  two assignments precede the check.
\<close>

theorem Allocate_fails_sets_sizes:
  "NumClear fm < divRoundUp fileSize (SectorSize c) \<Longrightarrow>
   Allocate c h fm d fileSize =
     Inr (False, h\<lparr>numBytes := fileSize, numSectors := divRoundUp fileSize (SectorSize c)\<rparr>, fm, d)"
  by (simp add: Allocate_def Let_def)

theorem Allocate_fails_sets_sizes_witness:
  "NumClear [True, True] < divRoundUp 128 (SectorSize cfg) \<and>
   Allocate cfg (FileHeader_new cfg) [True, True] empty_disk 128 =
     Inr (False, (FileHeader_new cfg)\<lparr>numBytes := 128, numSectors := 1\<rparr>, [True, True], empty_disk)"
proof -
  have h: "NumClear [True, True] < divRoundUp 128 (SectorSize cfg)"
    by (simp add: NumClear_def divRoundUp_def cfg_def)
  have "divRoundUp 128 (SectorSize cfg) = 1"
    by (simp add: divRoundUp_def cfg_def)
  with h Allocate_fails_sets_sizes [OF h, of "FileHeader_new cfg" empty_disk] show ?thesis
    by simp
qed

text \<open>
  Claim C1 as stated fails: a fresh header (\<open>numBytes = -1\<close>) and a bitmap without a free
  sector; the call for 128 bytes returns false and the header has \<open>numBytes = 128\<close>.
\<close>

theorem Allocate_fails_header_changed:
  "NumClear [True, True] < divRoundUp 128 (SectorSize cfg) \<and>
   Allocate cfg (FileHeader_new cfg) [True, True] empty_disk 128 \<noteq>
     Inr (False, FileHeader_new cfg, [True, True], empty_disk) \<and>
   numBytes (FileHeader_new cfg) = - 1 \<and>
   numBytes (fst (snd (projr (Allocate cfg (FileHeader_new cfg) [True, True] empty_disk 128)))) = 128"
  by (simp add: Allocate_def Let_def NumClear_def divRoundUp_def cfg_def FileHeader_new_def)

lemma Allocate_15_free:
  "case Allocate cfg (FileHeader_new cfg) (replicate 15 False) empty_disk 1920 of
     Inl e \<Rightarrow> e = AssertionFailed | Inr r \<Rightarrow> False"
  by code_simp

text \<open>
  Claim C2 at a bitmap with exactly 15 free sectors and a file of 15 sectors: the check
  \<open>NumClear() < numSectors\<close> passes, the call takes 10 direct sectors, the sector of the
  indirection block and 4 of its 32 entries, and the next \<open>FindAndSet\<close> returns \<open>-1\<close>:
  the assertion \<^verbatim>\<open>ASSERT(SectorForIndirect[j] >= 0)\<close> fails.
\<close>

theorem Allocate_check_too_weak:
  "divRoundUp 1920 (SectorSize cfg) \<le> NumClear (replicate 15 False) \<and>
   Allocate cfg (FileHeader_new cfg) (replicate 15 False) empty_disk 1920 = Inl AssertionFailed"
proof -
  have "divRoundUp 1920 (SectorSize cfg) \<le> NumClear (replicate 15 False)"
    by code_simp
  moreover from Allocate_15_free
  have "Allocate cfg (FileHeader_new cfg) (replicate 15 False) empty_disk 1920 = Inl AssertionFailed"
    by (cases "Allocate cfg (FileHeader_new cfg) (replicate 15 False) empty_disk 1920") simp_all
  ultimately show ?thesis ..
qed

text \<open>
  Claim C3. After a successful \<open>Allocate\<close>, whatever the file size, \<open>Deallocate\<close> on the
  resulting header, bitmap and store fails no assertion and returns the bitmap the
  \<open>Allocate\<close> started from, so the free-sector count is the one before the allocation and
  no sector the call marked stays marked; the sectors passed to \<open>Clear\<close> are pairwise
  different and are exactly the sectors the \<open>Allocate\<close> marked.
\<close>

theorem Allocate_Deallocate:
  assumes "Allocate c h fm d fileSize = Inr (True, h', fm', d')"
  shows "\<exists>cleared. Deallocate c h' fm' d' = Inr (fm, cleared) \<and> distinct cleared \<and>
           set cleared = {s. 0 \<le> s \<and> s < int (length fm) \<and> fm' ! nat s \<and> \<not> fm ! nat s}"
proof -
  define ds where "ds = map ((!) (DirectSectors h')) [nat 0..<nat (numDirectSectors h')]"
  define ia where "ia = concat (map (\<lambda>k. IndirectSectors h' ! k # d' (IndirectSectors h' ! k))
    [nat 0..<nat (numIndirectSectors h')])"
  define id where "id = concat (map (\<lambda>k. d' (IndirectSectors h' ! k) @ [IndirectSectors h' ! k])
    [nat 0..<nat (numIndirectSectors h')])"
  note ok = Allocate_ok [OF assms]
  have m: "marks fm (ds @ ia) fm'"
    using ok(6) by (simp add: header_sectors_def ds_def ia_def)
  have "mset id = mset ia"
    unfolding id_def ia_def by (rule mset_swap_groups)
  then have ms: "mset (ds @ id) = mset (ds @ ia)" by simp
  from m have "distinct (ds @ ia)" unfolding marks_def by blast
  with mset_eq_imp_distinct_iff [OF ms] have dist: "distinct (ds @ id)" by blast
  have sets: "set (ds @ id) = set (ds @ ia)"
    using ms by (rule mset_eq_setD)
  have test: "Test fm' s" if "s \<in> set (ds @ id)" for s
  proof -
    from that sets have "s \<in> set (ds @ ia)" by blast
    from marks_set [OF m this] show ?thesis by (auto simp: Test_def)
  qed
  have dd: "DeallocDirect 0 (numDirectSectors h') (DirectSectors h') fm' [] =
      Inr (foldl Clear fm' ds, [] @ ds)"
    unfolding ds_def
  proof (rule DeallocDirect_ok)
    show "(0::int) \<le> 0" by simp
    show "0 < numDirectSectors h' \<longrightarrow> numDirectSectors h' \<le> int (length (DirectSectors h'))"
      by (rule ok(7))
    show "distinct (map ((!) (DirectSectors h')) [nat 0..<nat (numDirectSectors h')])"
      using dist by (simp add: ds_def)
    show "\<forall>s\<in>set (map ((!) (DirectSectors h')) [nat 0..<nat (numDirectSectors h')]). Test fm' s"
      using test unfolding ds_def [symmetric] by simp
  qed
  have test2: "\<forall>s\<in>set id. Test (foldl Clear fm' ds) s"
  proof
    fix s assume s: "s \<in> set id"
    then have "Test fm' s" using test by simp
    moreover from s dist have "s \<notin> set ds" by auto
    ultimately show "Test (foldl Clear fm' ds) s" by (simp add: Test_foldl_Clear)
  qed
  have di: "DeallocIndirect c 0 (numIndirectSectors h') (IndirectSectors h') (foldl Clear fm' ds) d' ds =
      Inr (foldl Clear (foldl Clear fm' ds) id, ds @ id)"
    unfolding id_def
  proof (rule DeallocIndirect_ok)
    show "(0::int) \<le> 0" by simp
    show "0 < numIndirectSectors h' \<longrightarrow> numIndirectSectors h' \<le> int (length (IndirectSectors h'))"
      by (rule ok(8))
    show "distinct (concat (map (\<lambda>k. d' (IndirectSectors h' ! k) @ [IndirectSectors h' ! k])
        [nat 0..<nat (numIndirectSectors h')]))"
      using dist unfolding id_def [symmetric] by simp
    show "\<forall>s\<in>set (concat (map (\<lambda>k. d' (IndirectSectors h' ! k) @ [IndirectSectors h' ! k])
        [nat 0..<nat (numIndirectSectors h')])). Test (foldl Clear fm' ds) s"
      using test2 unfolding id_def [symmetric] .
    show "\<forall>k. nat 0 \<le> k \<and> k < nat (numIndirectSectors h') \<longrightarrow>
        int (length (d' (IndirectSectors h' ! k))) = max 0 (NumSectorForBlock c)"
      using ok(9) by simp
  qed
  have undo: "foldl Clear fm' (ds @ id) = fm"
    by (rule marks_undo [OF m sets])
  have dealloc: "Deallocate c h' fm' d' = Inr (fm, ds @ id)"
    using dd di undo by (simp add: Deallocate_def)
  from marks_exactly [OF m] sets
  have "set (ds @ id) = {s. 0 \<le> s \<and> s < int (length fm) \<and> fm' ! nat s \<and> \<not> fm ! nat s}"
    by simp
  with dealloc dist show ?thesis by blast
qed

lemma Allocate_60_free:
  "case Allocate cfg (FileHeader_new cfg) (replicate 60 False) empty_disk 1920 of
     Inl e \<Rightarrow> False | Inr (b, r) \<Rightarrow> b"
  by code_simp

lemma Allocate_60_free_ex:
  "\<exists>h' fm' d'. Allocate cfg (FileHeader_new cfg) (replicate 60 False) empty_disk 1920 = Inr (True, h', fm', d')"
  using Allocate_60_free
  by (cases "Allocate cfg (FileHeader_new cfg) (replicate 60 False) empty_disk 1920") auto

theorem Allocate_Deallocate_witness:
  "\<exists>h' fm' d' cleared.
     Allocate cfg (FileHeader_new cfg) (replicate 60 False) empty_disk 1920 = Inr (True, h', fm', d') \<and>
     Deallocate cfg h' fm' d' = Inr (replicate 60 False, cleared) \<and> distinct cleared"
proof -
  from Allocate_60_free_ex obtain h' fm' d' where
    a: "Allocate cfg (FileHeader_new cfg) (replicate 60 False) empty_disk 1920 = Inr (True, h', fm', d')"
    by blast
  from Allocate_Deallocate [OF a] a show ?thesis by blast
qed

lemma Allocate_5_free:
  "case Allocate cfg (FileHeader_new cfg) (replicate 60 False) empty_disk 640 of
     Inl e \<Rightarrow> False | Inr (b, r) \<Rightarrow> b"
  by code_simp

lemma Allocate_5_free_ex:
  "\<exists>h' fm' d'. Allocate cfg (FileHeader_new cfg) (replicate 60 False) empty_disk 640 = Inr (True, h', fm', d')"
  using Allocate_5_free
  by (cases "Allocate cfg (FileHeader_new cfg) (replicate 60 False) empty_disk 640") auto

lemma AllocIndirect_none: "n \<le> i \<Longrightarrow> AllocIndirect c i n ins fm d = Inr (ins, fm, d)"
  by (simp add: AllocIndirect.simps)

text \<open>
  Claim C4. With \<open>SectorSize = 128\<close>, \<open>NumDirect = 10\<close> and \<open>NumSectorForBlock = 32\<close>, a
  successful \<open>Allocate\<close> for \<open>5 * 128\<close> bytes marks exactly 5 sectors, the 5 direct ones,
  writes no indirection block and leaves \<open>IndirectSectors\<close> and the store as they were; a
  successful \<open>Allocate\<close> for \<open>15 * 128\<close> bytes (15 sectors) marks the 10 direct sectors, the
  sector of one indirection block and the 32 entries written into that block, 43 sectors in
  all.
\<close>

theorem Allocate_scenario_B:
  assumes c: "SectorSize c = 128" "NumDirect c = 10" "NumSectorForBlock c = 32"
  shows "(Allocate c h fm d (5 * 128) = Inr (True, h', fm', d') \<longrightarrow>
            numDirectSectors h' = 5 \<and> numIndirectSectors h' = 0 \<and>
            IndirectSectors h' = IndirectSectors h \<and> d' = d \<and>
            marks fm (map ((!) (DirectSectors h')) [0..<5]) fm' \<and>
            NumClear fm' = NumClear fm - 5) \<and>
         (Allocate c h fm d (15 * 128) = Inr (True, h', fm', d') \<longrightarrow>
            numSectors h' = 15 \<and> numDirectSectors h' = 10 \<and> numIndirectSectors h' = 1 \<and>
            length (d' (IndirectSectors h' ! 0)) = 32 \<and>
            marks fm (map ((!) (DirectSectors h')) [0..<10] @
                      IndirectSectors h' ! 0 # d' (IndirectSectors h' ! 0)) fm' \<and>
            NumClear fm' = NumClear fm - 43)"
proof (intro conjI impI)
  assume a: "Allocate c h fm d (5 * 128) = Inr (True, h', fm', d')"
  note ok = Allocate_ok [OF a]
  from ok(2) c have ns: "numSectors h' = 5" by (simp add: divRoundUp_def)
  with ok(4,5) c show nd: "numDirectSectors h' = 5" and ni: "numIndirectSectors h' = 0"
    by simp_all
  from ok(10) ni show "IndirectSectors h' = IndirectSectors h" and "d' = d"
    by (auto simp: AllocIndirect_none)
  from ok(6) nd ni show m: "marks fm (map ((!) (DirectSectors h')) [0..<5]) fm'"
    by (simp add: header_sectors_def)
  from marks_NumClear [OF m] show "NumClear fm' = NumClear fm - 5" by simp
next
  assume a: "Allocate c h fm d (15 * 128) = Inr (True, h', fm', d')"
  note ok = Allocate_ok [OF a]
  from ok(2) c show ns: "numSectors h' = 15" by (simp add: divRoundUp_def)
  with ok(4,5) c show nd: "numDirectSectors h' = 10" and ni: "numIndirectSectors h' = 1"
    by (simp_all add: divRoundUp_def)
  from ok(9) ni c show len: "length (d' (IndirectSectors h' ! 0)) = 32" by simp
  from ok(6) nd ni
  show m: "marks fm (map ((!) (DirectSectors h')) [0..<10] @
                      IndirectSectors h' ! 0 # d' (IndirectSectors h' ! 0)) fm'"
    by (simp add: header_sectors_def)
  from marks_NumClear [OF m] len show "NumClear fm' = NumClear fm - 43" by simp
qed

theorem Allocate_scenario_B_witness:
  "(\<exists>h' fm' d'. Allocate cfg (FileHeader_new cfg) (replicate 60 False) empty_disk (5 * 128) = Inr (True, h', fm', d') \<and>
      numDirectSectors h' = 5 \<and> numIndirectSectors h' = 0 \<and> NumClear fm' = 55) \<and>
   (\<exists>h' fm' d'. Allocate cfg (FileHeader_new cfg) (replicate 60 False) empty_disk (15 * 128) = Inr (True, h', fm', d') \<and>
      numDirectSectors h' = 10 \<and> numIndirectSectors h' = 1 \<and> NumClear fm' = 17)"
proof -
  have c: "SectorSize cfg = 128" "NumDirect cfg = 10" "NumSectorForBlock cfg = 32"
    by (simp_all add: cfg_def)
  have n: "NumClear (replicate 60 False) = 60" by (simp add: NumClear_def)
  from Allocate_5_free_ex obtain h1 fm1 d1 where
    a1: "Allocate cfg (FileHeader_new cfg) (replicate 60 False) empty_disk (5 * 128) = Inr (True, h1, fm1, d1)"
    by auto
  from Allocate_60_free_ex obtain h2 fm2 d2 where
    a2: "Allocate cfg (FileHeader_new cfg) (replicate 60 False) empty_disk (15 * 128) = Inr (True, h2, fm2, d2)"
    by auto
  from Allocate_scenario_B [OF c, of "FileHeader_new cfg" "replicate 60 False" empty_disk h1 fm1 d1] a1 n
  have "numDirectSectors h1 = 5 \<and> numIndirectSectors h1 = 0 \<and> NumClear fm1 = 55" by simp
  moreover
  from Allocate_scenario_B [OF c, of "FileHeader_new cfg" "replicate 60 False" empty_disk h2 fm2 d2] a2 n
  have "numDirectSectors h2 = 10 \<and> numIndirectSectors h2 = 1 \<and> NumClear fm2 = 17" by simp
  ultimately show ?thesis using a1 a2 by blast
qed

section \<open>Properties of ByteToSector\<close>

lemma sdiv_nonneg: "0 \<le> a \<Longrightarrow> 0 < b \<Longrightarrow> a sdiv b = a div (b::int)"
  by (simp add: signed_divide_int_def sgn_if)

lemma smod_nonneg: "0 \<le> a \<Longrightarrow> 0 < b \<Longrightarrow> a smod b = a mod (b::int)"
  by (simp add: signed_modulo_int_def sgn_if)

lemma divRoundUp_gt: "0 < s \<Longrightarrow> a < n \<Longrightarrow> a div s < divRoundUp n s"
proof -
  assume s: "0 < s" and "a < n"
  then have "a \<le> n - 1" by simp
  then have "a div s \<le> (n - 1) div s" using s by (simp add: zdiv_mono1)
  also have "(n - 1) div s < (n - 1 + s) div s" using s by (simp add: div_add_self2)
  finally show ?thesis by (simp add: divRoundUp_def algebra_simps)
qed

lemma divRoundUp_ge: "0 < s \<Longrightarrow> n \<le> s * divRoundUp n s"
proof -
  assume s: "0 < s"
  have "(n + s - 1) mod s < s" using s by simp
  moreover have "s * ((n + s - 1) div s) + (n + s - 1) mod s = n + s - 1" by simp
  ultimately show ?thesis unfolding divRoundUp_def by linarith
qed

lemma div_less_of_less_mult: "0 < s \<Longrightarrow> a < s * n \<Longrightarrow> a div s < (n::int)"
proof -
  assume s: "0 < s" and a: "a < s * n"
  have "s * (a div s) + a mod s = a" by simp
  moreover have "0 \<le> a mod s" using s by simp
  ultimately have "s * (a div s) < s * n" using a by linarith
  with s show ?thesis by (simp add: mult_less_cancel_left_pos)
qed

lemma header_sectors_direct:
  "0 \<le> q \<Longrightarrow> q < numDirectSectors h \<Longrightarrow> DirectSectors h ! nat q \<in> set (header_sectors h d)"
  by (auto simp: header_sectors_def)

lemma header_sectors_indirect:
  assumes "0 \<le> i" "i < numIndirectSectors h"
  shows "IndirectSectors h ! nat i \<in> set (header_sectors h d)"
    and "e < length (d (IndirectSectors h ! nat i)) \<Longrightarrow>
           d (IndirectSectors h ! nat i) ! e \<in> set (header_sectors h d)"
proof -
  from assms have k: "nat i \<in> set [0..<nat (numIndirectSectors h)]" by auto
  then show "IndirectSectors h ! nat i \<in> set (header_sectors h d)"
    unfolding header_sectors_def by (auto intro!: bexI [of _ "nat i"])
  assume "e < length (d (IndirectSectors h ! nat i))"
  then have "d (IndirectSectors h ! nat i) ! e \<in> set (d (IndirectSectors h ! nat i))" by simp
  with k show "d (IndirectSectors h ! nat i) ! e \<in> set (header_sectors h d)"
    unfolding header_sectors_def by (auto intro!: bexI [of _ "nat i"])
qed

text \<open>
  Claim C10. For a header produced by a successful \<open>Allocate\<close> and an offset with
  \<open>0 \<le> offset < numBytes\<close>: in the direct branch the index \<open>offset / SectorSize\<close> is below
  \<open>numDirectSectors\<close>, which is within \<open>DirectSectors\<close>; in the other branch the index of the
  indirection block is below \<open>numIndirectSectors\<close>, which is within \<open>IndirectSectors\<close>, and
  the entry there is not the sentinel \<open>-1\<close>. \<open>ByteToSector\<close> then returns one of the sectors
  the header refers to.
\<close>

theorem ByteToSector_after_Allocate:
  assumes cok: "config_ok c" and fs: "int32 fileSize"
    and a: "Allocate c h fm d fileSize = Inr (True, h', fm', d')"
    and off: "0 \<le> offset" "offset < numBytes h'"
  shows "(offset < SectorSize c * numDirectSectors h' \<longrightarrow>
            0 \<le> offset sdiv SectorSize c \<and> offset sdiv SectorSize c < numDirectSectors h' \<and>
            numDirectSectors h' \<le> int (length (DirectSectors h'))) \<and>
         (\<not> offset < SectorSize c * numDirectSectors h' \<longrightarrow>
            0 \<le> (offset - SectorSize c * numDirectSectors h') sdiv (SectorSize c * NumSectorForBlock c) \<and>
            (offset - SectorSize c * numDirectSectors h') sdiv (SectorSize c * NumSectorForBlock c)
               < numIndirectSectors h' \<and>
            numIndirectSectors h' \<le> int (length (IndirectSectors h')) \<and>
            IndirectSectors h' ! nat ((offset - SectorSize c * numDirectSectors h') sdiv
               (SectorSize c * NumSectorForBlock c)) \<noteq> - 1) \<and>
         (\<exists>s. ByteToSector c h' \<lparr>freeMap = fm', synchDisk = d'\<rparr> offset =
                 (Inr s, h', \<lparr>freeMap = fm', synchDisk = d'\<rparr>) \<and>
              s \<in> set (header_sectors h' d'))"
proof -
  define S where "S = SectorSize c"
  define B where "B = NumSectorForBlock c"
  define nd where "nd = numDirectSectors h'"
  define ni where "ni = numIndirectSectors h'"
  define ns where "ns = numSectors h'"
  define m where "m = \<lparr>freeMap = fm', synchDisk = d'\<rparr>"
  from cok have S: "0 < S" and B: "0 < B" and N: "0 \<le> NumDirect c"
    and lim: "int32 (S * NumDirect c)"
    by (simp_all add: config_ok_def S_def B_def)
  note ok = Allocate_ok [OF a]
  from ok(1) off have lt: "offset < fileSize" by simp
  from ok(2) have ns: "ns = divRoundUp fileSize S" by (simp add: ns_def S_def)
  from ok(4) have nd: "nd = (if NumDirect c < ns then NumDirect c else ns)"
    by (simp add: nd_def ns_def)
  from ok(5) have ni: "ni = (if NumDirect c < ns then divRoundUp (ns - NumDirect c) B else 0)"
    by (simp add: ni_def ns_def B_def)
  define q where "q = offset div S"
  have q0: "0 \<le> q" using off(1) S by (simp add: q_def pos_imp_zdiv_nonneg_iff)
  have qns: "q < ns" unfolding q_def ns by (rule divRoundUp_gt [OF S lt])
  have sq: "offset sdiv S = q" using off(1) S by (simp add: sdiv_nonneg q_def)
  have ndN: "nd \<le> NumDirect c" using nd by simp
  have m1: "marks fm (header_sectors h' d') fm'" by (rule ok(6))
  show ?thesis
  proof (cases "offset < S * nd")
    case True
    then have qnd: "q < nd" unfolding q_def by (rule div_less_of_less_mult [OF S])
    with q0 have nd0: "0 < nd" by simp
    with ok(7) have len: "nd \<le> int (length (DirectSectors h'))" by (simp add: nd_def)
    from nd0 ndN S have "0 \<le> S * nd" "S * nd \<le> S * NumDirect c"
      by (simp_all add: mult_left_mono)
    with lim have i32: "int32 (S * nd)" by (simp add: int32_def)
    from q0 qnd len have rd: "array_read (DirectSectors h') q = Inr (DirectSectors h' ! nat q)"
      by (simp add: array_read_def)
    have bts: "ByteToSector c h' m offset = (Inr (DirectSectors h' ! nat q), h', m)"
      using True i32 rd sq
      by (simp add: ByteToSector_def Let_def S_def [symmetric] nd_def [symmetric])
    have mem: "DirectSectors h' ! nat q \<in> set (header_sectors h' d')"
      using q0 qnd by (intro header_sectors_direct) (simp_all add: nd_def)
    from True q0 qnd len sq bts mem show ?thesis
      unfolding S_def [symmetric] B_def [symmetric] nd_def [symmetric] ni_def [symmetric] m_def [symmetric]
      by auto
  next
    case False
    have big: "NumDirect c < ns"
    proof (rule ccontr)
      assume "\<not> NumDirect c < ns"
      with nd have "nd = ns" by simp
      with divRoundUp_ge [OF S, of fileSize] ns lt False show False by simp
    qed
    with nd ni have ndv: "nd = NumDirect c" and niv: "ni = divRoundUp (ns - NumDirect c) B"
      by simp_all
    define rel where "rel = offset - S * nd"
    from False have rel0: "0 \<le> rel" by (simp add: rel_def)
    from N S ndv have "0 \<le> S * nd" by simp
    with rel0 lt fs have r32: "int32 rel" by (simp add: rel_def int32_def)
    from lim ndv have i32: "int32 (S * nd)" by simp
    define r where "r = q - nd"
    have "(offset + (- nd) * S) div S = - nd + offset div S"
      using S by (intro div_mult_self1) simp
    then have rdiv: "rel div S = r"
      by (simp add: rel_def r_def q_def mult.commute)
    from rel0 S have r0: "0 \<le> r" unfolding rdiv [symmetric] by (simp add: pos_imp_zdiv_nonneg_iff)
    from qns ndv have rlt: "r < ns - NumDirect c" by (simp add: r_def)
    define i where "i = r div B"
    have idiv: "rel div (S * B) = i"
      using B by (simp add: zdiv_zmult2_eq rdiv i_def)
    have SB: "0 < S * B" using S B by simp
    have si: "rel sdiv (S * B) = i" using rel0 SB idiv by (simp add: sdiv_nonneg)
    have i0: "0 \<le> i" using r0 B by (simp add: i_def pos_imp_zdiv_nonneg_iff)
    have ini: "i < ni" unfolding i_def niv by (rule divRoundUp_gt [OF B rlt])
    with i0 ok(8) have len: "ni \<le> int (length (IndirectSectors h'))" by (simp add: ni_def)
    define e where "e = r mod B"
    have e0: "0 \<le> e" "e < B" using B by (simp_all add: e_def)
    have se: "(rel sdiv S) smod B = e"
      using rel0 S r0 B rdiv by (simp add: sdiv_nonneg smod_nonneg e_def)
    from i0 ini ok(9) B
    have blen: "int (length (d' (IndirectSectors h' ! nat i))) = B"
      by (simp add: ni_def B_def)
    from i0 ini len have ri: "array_read (IndirectSectors h') i = Inr (IndirectSectors h' ! nat i)"
      by (simp add: array_read_def)
    from e0 blen have re: "array_read (d' (IndirectSectors h' ! nat i)) e =
        Inr (d' (IndirectSectors h' ! nat i) ! nat e)"
      by (simp add: array_read_def)
    have bts: "ByteToSector c h' m offset = (Inr (d' (IndirectSectors h' ! nat i) ! nat e), h', m)"
      using False i32 r32 ri re si se
      by (simp add: ByteToSector_def Let_def S_def [symmetric] nd_def [symmetric] B_def [symmetric]
          rel_def [symmetric] ReadSector_def m_def)
    from e0 blen have "nat e < length (d' (IndirectSectors h' ! nat i))" by simp
    with i0 ini have mem: "d' (IndirectSectors h' ! nat i) ! nat e \<in> set (header_sectors h' d')"
      and imem: "IndirectSectors h' ! nat i \<in> set (header_sectors h' d')"
      by (simp_all add: header_sectors_indirect ni_def)
    from marks_set [OF m1 imem] have "IndirectSectors h' ! nat i \<noteq> - 1" by auto
    with False i0 ini len si bts mem show ?thesis
      unfolding S_def [symmetric] B_def [symmetric] nd_def [symmetric] ni_def [symmetric]
        m_def [symmetric] rel_def [symmetric]
      by auto
  qed
qed

theorem ByteToSector_after_Allocate_witness:
  "\<exists>h' fm' d' s.
     Allocate cfg (FileHeader_new cfg) (replicate 60 False) empty_disk 1920 = Inr (True, h', fm', d') \<and>
     ByteToSector cfg h' \<lparr>freeMap = fm', synchDisk = d'\<rparr> 1500 =
       (Inr s, h', \<lparr>freeMap = fm', synchDisk = d'\<rparr>) \<and>
     s \<in> set (header_sectors h' d')"
proof -
  from Allocate_60_free_ex obtain h' fm' d' where
    a: "Allocate cfg (FileHeader_new cfg) (replicate 60 False) empty_disk 1920 = Inr (True, h', fm', d')"
    by blast
  have c: "config_ok cfg" by (simp add: config_ok_def cfg_def int32_def)
  have f: "int32 1920" by (simp add: int32_def)
  from Allocate_ok(1) [OF a] have o: "(0::int) \<le> 1500" "1500 < numBytes h'" by simp_all
  from ByteToSector_after_Allocate [OF c f a o] a show ?thesis by blast
qed

text \<open>
  Claim C5. When \<open>offset < SectorSize * numDirectSectors\<close>, \<open>ByteToSector\<close> returns
  \<open>DirectSectors[offset / SectorSize]\<close>; otherwise it returns the entry
  \<open>((offset - SectorSize * numDirectSectors) / SectorSize) % NumSectorForBlock\<close> of the block
  read from the sector
  \<open>IndirectSectors[(offset - SectorSize * numDirectSectors) / (SectorSize * NumSectorForBlock)]\<close>.
  Both hold for the program's constants, where the indices are inside the arrays and the two
  integer operations do not overflow (outside, the C++ program has no defined behaviour). In every case the header and
  the machine state, that is the bitmap and the sector store, are left as they were.
\<close>

theorem ByteToSector_spec:
  assumes "config_ok c"
  shows
  "(offset < SectorSize c * numDirectSectors h \<and> int32 (SectorSize c * numDirectSectors h) \<and>
    0 \<le> offset sdiv SectorSize c \<and> offset sdiv SectorSize c < int (length (DirectSectors h)) \<longrightarrow>
      ByteToSector c h m offset = (Inr (DirectSectors h ! nat (offset sdiv SectorSize c)), h, m)) \<and>
   (\<not> offset < SectorSize c * numDirectSectors h \<and> int32 (SectorSize c * numDirectSectors h) \<and>
    int32 (offset - SectorSize c * numDirectSectors h) \<and>
    0 \<le> (offset - SectorSize c * numDirectSectors h) sdiv (SectorSize c * NumSectorForBlock c) \<and>
    (offset - SectorSize c * numDirectSectors h) sdiv (SectorSize c * NumSectorForBlock c)
       < int (length (IndirectSectors h)) \<and>
    blk = ReadSector (synchDisk m) (IndirectSectors h !
       nat ((offset - SectorSize c * numDirectSectors h) sdiv (SectorSize c * NumSectorForBlock c))) \<and>
    0 \<le> ((offset - SectorSize c * numDirectSectors h) sdiv SectorSize c) smod NumSectorForBlock c \<and>
    ((offset - SectorSize c * numDirectSectors h) sdiv SectorSize c) smod NumSectorForBlock c
       < int (length blk) \<longrightarrow>
      ByteToSector c h m offset =
        (Inr (blk ! nat (((offset - SectorSize c * numDirectSectors h) sdiv SectorSize c)
                 smod NumSectorForBlock c)), h, m)) \<and>
   snd (ByteToSector c h m offset) = (h, m)"
  by (auto simp: ByteToSector_def Let_def array_read_def split: sum.splits)

theorem ByteToSector_spec_witness:
  "ByteToSector cfg hdr_example machine_example 130 = (Inr 4, hdr_example, machine_example) \<and>
   ByteToSector cfg hdr_example machine_example 640 = (Inr 13, hdr_example, machine_example)"
proof -
  have s: "(130::int) sdiv 128 = 1" "((640::int) - 128 * 2) sdiv (128 * 32) = 0"
    "(((640::int) - 128 * 2) sdiv 128) smod 32 = 3"
    by (simp_all add: signed_divide_int_def signed_modulo_int_def)
  have c: "SectorSize cfg = 128" "NumSectorForBlock cfg = 32" by (simp_all add: cfg_def)
  have h: "numDirectSectors hdr_example = 2" "DirectSectors hdr_example = [3, 4]"
    "IndirectSectors hdr_example = [7]"
    by (simp_all add: hdr_example_def)
  have r: "ReadSector (synchDisk machine_example) 7 = [10, 11, 12, 13, 14]"
    by (simp add: machine_example_def ReadSector_def)
  have k: "config_ok cfg" by (simp add: config_ok_def cfg_def int32_def)
  from ByteToSector_spec [OF k, where offset = 130 and h = hdr_example and m = machine_example]
  have "ByteToSector cfg hdr_example machine_example 130 = (Inr 4, hdr_example, machine_example)"
    by (simp add: c h s int32_def)
  moreover
  from ByteToSector_spec [OF k, where offset = 640 and h = hdr_example and m = machine_example
      and blk = "[10, 11, 12, 13, 14]"]
  have "ByteToSector cfg hdr_example machine_example 640 = (Inr 13, hdr_example, machine_example)"
    by (simp add: c h s r int32_def)
  ultimately show ?thesis ..
qed

section \<open>Properties of FetchFrom\<close>

lemma FetchFrom_scan_takeWhile:
  "0 \<le> k \<Longrightarrow> k \<le> NumIndirect c \<Longrightarrow> length ins = nat (NumIndirect c) \<Longrightarrow>
   FetchFrom_scan c ins k = k + int (length (takeWhile (\<lambda>x. x \<noteq> - 1) (drop (nat k) ins)))"
proof (induction c ins k rule: FetchFrom_scan.induct)
  case (1 c ins k)
  show ?case
  proof (cases "k < NumIndirect c")
    case False
    with "1.prems" show ?thesis by (simp add: FetchFrom_scan.simps)
  next
    case True
    with "1.prems" have lt: "nat k < length ins" by simp
    then have dr: "drop (nat k) ins = ins ! nat k # drop (nat (k + 1)) ins"
      using "1.prems"(1) by (simp add: Cons_nth_drop_Suc nat_add_distrib)
    show ?thesis
    proof (cases "ins ! nat k = - 1")
      case stop: True
      with True dr show ?thesis by (simp add: FetchFrom_scan.simps)
    next
      case go: False
      from "1.IH" [OF True go] "1.prems" True
      have "FetchFrom_scan c ins (k + 1) =
          k + 1 + int (length (takeWhile (\<lambda>x. x \<noteq> - 1) (drop (nat (k + 1)) ins)))"
        by simp
      with True go dr show ?thesis
        by (subst FetchFrom_scan.simps) simp
    qed
  qed
qed

text \<open>
  Claim C6. \<open>FetchFrom\<close> takes \<open>numBytes\<close>, \<open>numSectors\<close> and the two arrays from the record
  stored in the sector, sets \<open>numIndirectSectors\<close> to the number of entries of
  \<open>IndirectSectors\<close> before the first \<open>-1\<close> (all \<open>NumIndirect\<close> of them when there is none)
  and \<open>numDirectSectors\<close> to \<open>NumDirect\<close> when that number is not zero and to \<open>numSectors\<close>
  otherwise. The two counts stored in the sector have no influence: with any other values
  \<open>nd\<close> and \<open>ni\<close> in their place the result is the same.
\<close>

theorem FetchFrom_spec:
  assumes "0 \<le> NumIndirect c"
    and "4 + nat (NumDirect c) + nat (NumIndirect c) \<le> length (ReadSector d sec)"
  shows
    "numBytes (FetchFrom c d sec) = ReadSector d sec ! 0 \<and>
     numSectors (FetchFrom c d sec) = ReadSector d sec ! 1 \<and>
     DirectSectors (FetchFrom c d sec) = take (nat (NumDirect c)) (drop 4 (ReadSector d sec)) \<and>
     IndirectSectors (FetchFrom c d sec) =
       take (nat (NumIndirect c)) (drop (4 + nat (NumDirect c)) (ReadSector d sec)) \<and>
     numIndirectSectors (FetchFrom c d sec) =
       int (length (takeWhile (\<lambda>x. x \<noteq> - 1) (IndirectSectors (FetchFrom c d sec)))) \<and>
     numDirectSectors (FetchFrom c d sec) =
       (if numIndirectSectors (FetchFrom c d sec) \<noteq> 0 then NumDirect c
        else numSectors (FetchFrom c d sec)) \<and>
     FetchFrom c (WriteSector d sec ((ReadSector d sec)[2 := nd, 3 := ni])) sec =
       FetchFrom c d sec"
proof -
  let ?raw = "ReadSector d sec"
  let ?ins = "take (nat (NumIndirect c)) (drop (4 + nat (NumDirect c)) ?raw)"
  let ?n = "int (length (takeWhile (\<lambda>x. x \<noteq> - 1) ?ins))"
  from assms have len: "length ?ins = nat (NumIndirect c)"
    by simp
  from FetchFrom_scan_takeWhile [of 0 c ?ins] assms(1) len
  have scan: "FetchFrom_scan c ?ins 0 = ?n"
    by simp
  have ins: "IndirectSectors (decode_header c ?raw) = ?ins"
    by (simp add: decode_header_def)
  have h: "FetchFrom c d sec =
      (decode_header c ?raw)\<lparr>numIndirectSectors := ?n,
         numDirectSectors := (if ?n \<noteq> 0 then NumDirect c else numSectors (decode_header c ?raw))\<rparr>"
    unfolding FetchFrom_def Let_def ins scan ..
  have dec: "decode_header c (?raw[2 := nd, 3 := ni]) =
      (decode_header c ?raw)\<lparr>numDirectSectors := (?raw[2 := nd, 3 := ni]) ! 2,
         numIndirectSectors := (?raw[2 := nd, 3 := ni]) ! 3\<rparr>"
    by (simp add: decode_header_def drop_update_cancel)
  have rd: "ReadSector (WriteSector d sec (?raw[2 := nd, 3 := ni])) sec = ?raw[2 := nd, 3 := ni]"
    by (simp add: ReadSector_def WriteSector_def)
  have same: "FetchFrom c (WriteSector d sec (?raw[2 := nd, 3 := ni])) sec = FetchFrom c d sec"
    unfolding FetchFrom_def rd dec by (simp add: Let_def)
  have "numBytes (FetchFrom c d sec) = ?raw ! 0"
    and "numSectors (FetchFrom c d sec) = ?raw ! 1"
    and "DirectSectors (FetchFrom c d sec) = take (nat (NumDirect c)) (drop 4 ?raw)"
    and "IndirectSectors (FetchFrom c d sec) = ?ins"
    and "numIndirectSectors (FetchFrom c d sec) = ?n"
    and "numDirectSectors (FetchFrom c d sec) =
           (if ?n \<noteq> 0 then NumDirect c else ?raw ! 1)"
    unfolding h by (simp_all add: decode_header_def)
  with same show ?thesis by simp
qed

theorem FetchFrom_spec_witness:
  "numIndirectSectors (FetchFrom cfg (empty_disk(1 := raw_example)) 1) = 2 \<and>
   numDirectSectors (FetchFrom cfg (empty_disk(1 := raw_example)) 1) = 10 \<and>
   numBytes (FetchFrom cfg (empty_disk(1 := raw_example)) 1) = 300"
proof -
  have r: "ReadSector (empty_disk(1 := raw_example)) 1 = raw_example"
    by (simp add: ReadSector_def)
  have c: "NumIndirect cfg = 18" "NumDirect cfg = 10" by (simp_all add: cfg_def)
  have a: "0 \<le> NumIndirect cfg"
    "4 + nat (NumDirect cfg) + nat (NumIndirect cfg) \<le> length (ReadSector (empty_disk(1 := raw_example)) 1)"
    unfolding r c by (simp_all add: raw_example_def)
  note F = FetchFrom_spec [OF a, where nd = 0 and ni = 0, unfolded r c]
  from F have "IndirectSectors (FetchFrom cfg (empty_disk(1 := raw_example)) 1) =
      [20, 21, - 1, 22, - 1, - 1, - 1, - 1, - 1, - 1, - 1, - 1, - 1, - 1, - 1, - 1, - 1, - 1]"
    by (simp add: raw_example_def)
  with F have n: "numIndirectSectors (FetchFrom cfg (empty_disk(1 := raw_example)) 1) = 2"
    by simp
  with F have "numDirectSectors (FetchFrom cfg (empty_disk(1 := raw_example)) 1) = 10"
    by simp
  moreover from F have "numBytes (FetchFrom cfg (empty_disk(1 := raw_example)) 1) = 300"
    by (simp add: raw_example_def)
  ultimately show ?thesis using n by simp
qed

section \<open>Properties of the directory\<close>

lemma cstr_drop:
  "cstr (drop k a) = (if char_at a k \<noteq> NUL then char_at a k # cstr (drop (Suc k) a) else [])"
proof (cases "k < length a")
  case True
  then have "drop k a = a ! k # drop (Suc k) a" by (simp add: Cons_nth_drop_Suc)
  with True show ?thesis by (simp add: cstr_def char_at_def)
next
  case False
  then show ?thesis by (simp add: cstr_def char_at_def)
qed

lemma strncmp_from_eq:
  "strncmp_from a b k n = 0 \<longleftrightarrow> take n (cstr (drop k a)) = take n (cstr (drop k b))"
proof (induction n arbitrary: k)
  case 0
  show ?case by simp
next
  case (Suc n)
  have "int (of_char x) - int (of_char y) = 0 \<longleftrightarrow> x = y" for x y :: char
    by simp
  with Suc [of "Suc k"] show ?case
    by (simp add: cstr_drop [of k a] cstr_drop [of k b])
qed

lemma strncmp_eq: "strncmp a b n = 0 \<longleftrightarrow> take n (cstr a) = take n (cstr b)"
  using strncmp_from_eq [of a b 0 n] by (simp add: strncmp_def)

lemma cstr_strncpy: "take n (cstr (strncpy dst src n)) = take n (cstr src)"
proof -
  define s where "s = take n (cstr src)"
  have nonul: "\<forall>ch\<in>set s. ch \<noteq> NUL"
    unfolding s_def cstr_def by (auto dest!: in_set_takeD dest: set_takeWhileD)
  have cp: "strncpy dst src n = s @ replicate (n - length s) NUL @ drop n dst"
    by (simp add: strncpy_def s_def cstr_def Let_def)
  have ls: "length s \<le> n" by (simp add: s_def)
  show ?thesis
  proof (cases "length s < n")
    case True
    then obtain m where m: "n - length s = Suc m" by (cases "n - length s") auto
    with nonul have "cstr (strncpy dst src n) = s"
      unfolding cp cstr_def by (simp add: takeWhile_append2)
    with ls show ?thesis by (simp add: s_def)
  next
    case False
    with ls have "length s = n" by simp
    with nonul have "take n (cstr (strncpy dst src n)) = s"
      unfolding cp cstr_def by (simp add: takeWhile_append2)
    then show ?thesis by (simp add: s_def)
  qed
qed

lemma strncmp_strncpy: "strncmp (strncpy dst src n) src n = 0"
  by (simp add: strncmp_eq cstr_strncpy)

lemma strncmp_NULs: "strncmp (replicate k NUL) b n = 0 \<longleftrightarrow> take n (cstr b) = []"
  by (cases k) (auto simp: strncmp_eq cstr_def)

lemma length_strncpy: "n \<le> length dst \<Longrightarrow> length (strncpy dst src n) = length dst"
  by (simp add: strncpy_def Let_def)

lemma FindIndex_loop_none:
  "0 \<le> i \<Longrightarrow> FindIndex_loop c D nm i = - 1 \<longleftrightarrow> (\<forall>j. i \<le> j \<and> j < tableSize D \<longrightarrow> \<not> matches c D nm j)"
proof (induction c D nm i rule: FindIndex_loop.induct)
  case (1 c D nm i)
  show ?case
  proof (cases "i < tableSize D")
    case False
    then have "FindIndex_loop c D nm i = - 1" by (simp add: FindIndex_loop.simps)
    with False show ?thesis by auto
  next
    case True
    show ?thesis
    proof (cases "matches c D nm i")
      case m: True
      with True "1.prems" have "FindIndex_loop c D nm i = i"
        by (subst FindIndex_loop.simps) (simp add: matches_def)
      with m True "1.prems" show ?thesis by auto
    next
      case m: False
      with True have "FindIndex_loop c D nm i = FindIndex_loop c D nm (i + 1)"
        by (subst FindIndex_loop.simps) (auto simp: matches_def)
      moreover from "1.IH" [OF True] m "1.prems"
      have "FindIndex_loop c D nm (i + 1) = - 1 \<longleftrightarrow>
          (\<forall>j. i + 1 \<le> j \<and> j < tableSize D \<longrightarrow> \<not> matches c D nm j)"
        by (auto simp: matches_def)
      moreover have "(\<forall>j. i + 1 \<le> j \<and> j < tableSize D \<longrightarrow> \<not> matches c D nm j) \<longleftrightarrow>
          (\<forall>j. i \<le> j \<and> j < tableSize D \<longrightarrow> \<not> matches c D nm j)"
      proof (intro iffI allI impI)
        fix j assume h: "\<forall>j. i + 1 \<le> j \<and> j < tableSize D \<longrightarrow> \<not> matches c D nm j"
          and j: "i \<le> j \<and> j < tableSize D"
        show "\<not> matches c D nm j"
        proof (cases "j = i")
          case True with m show ?thesis by simp
        next
          case False with j h show ?thesis by simp
        qed
      qed simp
      ultimately show ?thesis by simp
    qed
  qed
qed

lemma FindIndex_loop_some:
  "0 \<le> i \<Longrightarrow> FindIndex_loop c D nm i \<noteq> - 1 \<Longrightarrow>
     i \<le> FindIndex_loop c D nm i \<and> FindIndex_loop c D nm i < tableSize D \<and>
     matches c D nm (FindIndex_loop c D nm i) \<and>
     (\<forall>j. i \<le> j \<and> j < FindIndex_loop c D nm i \<longrightarrow> \<not> matches c D nm j)"
proof (induction c D nm i rule: FindIndex_loop.induct)
  case (1 c D nm i)
  show ?case
  proof (cases "i < tableSize D")
    case False
    with "1.prems" show ?thesis by (simp add: FindIndex_loop.simps)
  next
    case True
    show ?thesis
    proof (cases "matches c D nm i")
      case m: True
      with True "1.prems" have "FindIndex_loop c D nm i = i"
        by (subst FindIndex_loop.simps) (simp add: matches_def)
      with m True show ?thesis by auto
    next
      case m: False
      with True have eq: "FindIndex_loop c D nm i = FindIndex_loop c D nm (i + 1)"
        by (subst FindIndex_loop.simps) (auto simp: matches_def)
      from "1.IH" [OF True] m "1.prems" eq
      have ih: "i + 1 \<le> FindIndex_loop c D nm (i + 1)" "FindIndex_loop c D nm (i + 1) < tableSize D"
        "matches c D nm (FindIndex_loop c D nm (i + 1))"
        "\<forall>j. i + 1 \<le> j \<and> j < FindIndex_loop c D nm (i + 1) \<longrightarrow> \<not> matches c D nm j"
        by (auto simp: matches_def)
      have "\<forall>j. i \<le> j \<and> j < FindIndex_loop c D nm (i + 1) \<longrightarrow> \<not> matches c D nm j"
      proof (intro allI impI)
        fix j assume j: "i \<le> j \<and> j < FindIndex_loop c D nm (i + 1)"
        show "\<not> matches c D nm j"
        proof (cases "j = i")
          case True with m show ?thesis by simp
        next
          case False with j ih(4) show ?thesis by simp
        qed
      qed
      with ih eq show ?thesis by simp
    qed
  qed
qed

lemma filter_all: "length (filter P xs) = length xs \<Longrightarrow> \<forall>x\<in>set xs. P x"
  by (metis length_filter_less less_not_refl)

lemma used_update:
  assumes "j < length xs" "\<not> P (xs ! j)" "P v"
  shows "length (filter P (xs[j := v])) = Suc (length (filter P xs))"
proof -
  from assms(1) have a: "xs[j := v] = take j xs @ v # drop (Suc j) xs"
    by (rule upd_conv_take_nth_drop)
  from assms(1) have b: "xs = take j xs @ xs ! j # drop (Suc j) xs"
    by (rule id_take_nth_drop)
  have "length (filter P xs) = length (filter P (take j xs @ xs ! j # drop (Suc j) xs))"
    using b by simp
  with assms(2,3) show ?thesis unfolding a by simp
qed

lemma Add_loop_full:
  "0 \<le> i \<Longrightarrow> \<forall>j. i \<le> j \<and> j < tableSize D \<longrightarrow> inUse (table D ! nat j) \<Longrightarrow>
   Add_loop c D nm s b i = (False, D)"
proof (induction c D nm s b i rule: Add_loop.induct)
  case (1 c D nm s b i)
  show ?case
  proof (cases "i < tableSize D")
    case False
    then show ?thesis by (simp add: Add_loop.simps)
  next
    case True
    with "1.prems" have u: "inUse (table D ! nat i)" by simp
    from "1.IH" [OF True] u "1.prems" have "Add_loop c D nm s b (i + 1) = (False, D)" by simp
    with True u show ?thesis by (subst Add_loop.simps) simp
  qed
qed

lemma Add_loop_free:
  "0 \<le> i \<Longrightarrow> i \<le> j \<Longrightarrow> j < tableSize D \<Longrightarrow> \<not> inUse (table D ! nat j) \<Longrightarrow>
   \<forall>k. i \<le> k \<and> k < j \<longrightarrow> inUse (table D ! nat k) \<Longrightarrow>
   Add_loop c D nm s b i = (True, D\<lparr>table := (table D)[nat j := claimed c (table D ! nat j) nm s b]\<rparr>)"
proof (induction c D nm s b i rule: Add_loop.induct)
  case (1 c D nm s b i)
  from "1.prems" have lt: "i < tableSize D" by simp
  show ?case
  proof (cases "i = j")
    case True
    with lt "1.prems"(4) show ?thesis
      by (subst Add_loop.simps) (simp add: claimed_def)
  next
    case False
    with "1.prems" have u: "inUse (table D ! nat i)" by simp
    from "1.IH" [OF lt] u "1.prems" False
    have "Add_loop c D nm s b (i + 1) =
        (True, D\<lparr>table := (table D)[nat j := claimed c (table D ! nat j) nm s b]\<rparr>)"
      by simp
    with lt u show ?thesis by (subst Add_loop.simps) simp
  qed
qed

lemma Add_loop_first_free:
  assumes "0 \<le> i" and ex: "\<exists>j. i \<le> j \<and> j < tableSize D \<and> \<not> inUse (table D ! nat j)"
  shows "\<exists>j. i \<le> j \<and> j < tableSize D \<and> \<not> inUse (table D ! nat j) \<and>
       (\<forall>k. i \<le> k \<and> k < j \<longrightarrow> inUse (table D ! nat k)) \<and>
       Add_loop c D nm s b i =
         (True, D\<lparr>table := (table D)[nat j := claimed c (table D ! nat j) nm s b]\<rparr>)"
proof -
  define Q where "Q = (\<lambda>n. i \<le> int n \<and> int n < tableSize D \<and> \<not> inUse (table D ! n))"
  from ex obtain j0 where "i \<le> j0" "j0 < tableSize D" "\<not> inUse (table D ! nat j0)" by blast
  with assms(1) have "Q (nat j0)" by (simp add: Q_def)
  then have L: "Q (LEAST n. Q n)" by (rule LeastI)
  have least: "(LEAST n. Q n) \<le> n" if "Q n" for n using that by (rule Least_le)
  define j where "j = int (LEAST n. Q n)"
  from L have j: "i \<le> j" "j < tableSize D" "\<not> inUse (table D ! nat j)"
    by (simp_all add: Q_def j_def)
  have "\<forall>k. i \<le> k \<and> k < j \<longrightarrow> inUse (table D ! nat k)"
  proof (intro allI impI, rule ccontr)
    fix k assume k: "i \<le> k \<and> k < j" and n: "\<not> inUse (table D ! nat k)"
    with assms(1) j(2) have "Q (nat k)" by (simp add: Q_def)
    from least [OF this] k assms(1) show False unfolding j_def by linarith
  qed
  with Add_loop_free [OF assms(1) j] j show ?thesis by blast
qed

lemma FindIndex_range:
  "FindIndex c D nm \<noteq> - 1 \<Longrightarrow>
     0 \<le> FindIndex c D nm \<and> FindIndex c D nm < tableSize D \<and> matches c D nm (FindIndex c D nm) \<and>
     (\<forall>j. 0 \<le> j \<and> j < FindIndex c D nm \<longrightarrow> \<not> matches c D nm j)"
  unfolding FindIndex_def using FindIndex_loop_some [of 0 c D nm] by simp

lemma FindIndex_absent:
  "FindIndex c D nm = - 1 \<longleftrightarrow> (\<forall>j. 0 \<le> j \<and> j < tableSize D \<longrightarrow> \<not> matches c D nm j)"
  unfolding FindIndex_def using FindIndex_loop_none [of 0 c D nm] by simp

lemma FindIndex_only:
  assumes "0 \<le> j" "j < tableSize D" "matches c D nm j"
    and "\<forall>k. 0 \<le> k \<and> k < tableSize D \<and> k \<noteq> j \<longrightarrow> \<not> matches c D nm k"
  shows "FindIndex c D nm = j"
proof -
  from assms(1-3) have "FindIndex c D nm \<noteq> - 1" by (auto simp: FindIndex_absent)
  from FindIndex_range [OF this] assms(4) show ?thesis by blast
qed

lemma Add_result:
  assumes ok: "dir_ok D" and a: "Add c D nm s b = (True, D')"
  shows "\<exists>j. j < length (table D) \<and> \<not> inUse (table D ! j) \<and> FindIndex c D nm = - 1 \<and>
           D' = D\<lparr>table := (table D)[j := claimed c (table D ! j) nm s b]\<rparr>"
proof -
  from a have fi: "FindIndex c D nm = - 1" and al: "Add_loop c D nm s b 0 = (True, D')"
    by (auto simp: Add_def split: if_splits)
  have "\<exists>j. 0 \<le> j \<and> j < tableSize D \<and> \<not> inUse (table D ! nat j)"
  proof (rule ccontr)
    assume "\<not> ?thesis"
    then have "\<forall>j. 0 \<le> j \<and> j < tableSize D \<longrightarrow> inUse (table D ! nat j)" by blast
    from Add_loop_full [OF _ this, of c nm s b] al show False by simp
  qed
  from Add_loop_first_free [OF _ this, of c nm s b] al obtain j where
    j: "0 \<le> j" "j < tableSize D" "\<not> inUse (table D ! nat j)"
      "D' = D\<lparr>table := (table D)[nat j := claimed c (table D ! nat j) nm s b]\<rparr>"
    by auto
  from j(1,2) ok have "nat j < length (table D)" by (simp add: dir_ok_def)
  with j fi show ?thesis by blast
qed

lemma Add_success:
  assumes ok: "dir_ok D" and a: "Add c D nm s b = (True, D')"
  shows "dir_ok D' \<and> used D' = Suc (used D) \<and> tableSize D' = tableSize D"
proof -
  from Add_result [OF ok a] obtain j where
    j: "j < length (table D)" "\<not> inUse (table D ! j)"
      "D' = D\<lparr>table := (table D)[j := claimed c (table D ! j) nm s b]\<rparr>"
    by blast
  have "inUse (claimed c (table D ! j) nm s b)" by (simp add: claimed_def)
  from used_update [of j "table D" inUse, OF j(1,2) this] j(3) ok show ?thesis
    by (simp add: used_def dir_ok_def)
qed

lemma Add_all_used:
  "dir_ok D \<Longrightarrow> Add_all c D ops = (True, D') \<Longrightarrow>
     dir_ok D' \<and> used D' = used D + length ops \<and> tableSize D' = tableSize D"
proof (induction ops arbitrary: D)
  case Nil
  then show ?case by simp
next
  case (Cons op ops)
  obtain nm s b where op: "op = (nm, s, b)" by (cases op)
  obtain r D1 where a: "Add c D nm s b = (r, D1)" by (cases "Add c D nm s b")
  with Cons.prems(2) op have r: "r" and rest: "Add_all c D1 ops = (True, D')"
    by (cases r; simp)+
  from Add_success [OF Cons.prems(1)] a r
  have s1: "dir_ok D1" "used D1 = Suc (used D)" "tableSize D1 = tableSize D" by simp_all
  from Cons.IH [OF s1(1) rest] s1 show ?case by simp
qed

lemma Add_full:
  assumes ok: "dir_ok D" and full: "used D = length (table D)"
  shows "Add c D nm s b = (False, D)"
proof -
  from full have "\<forall>e\<in>set (table D). inUse e"
    unfolding used_def by (rule filter_all)
  with ok have "\<forall>j. 0 \<le> j \<and> j < tableSize D \<longrightarrow> inUse (table D ! nat j)"
    by (auto simp: dir_ok_def)
  from Add_loop_full [OF _ this, of c nm s b] show ?thesis
    by (simp add: Add_def)
qed

lemma matches_update:
  assumes "nat k < length (table D)" "0 \<le> k"
  shows "matches c (D\<lparr>table := (table D)[j := e]\<rparr>) nm k =
           (if nat k = j then inUse e \<and> strncmp (name e) nm (FileNameMaxLen c) = 0
            else matches c D nm k)"
  using assms by (simp add: matches_def)

text \<open>
  Claim C7. In a directory with a free slot that does not hold the name, \<open>Add\<close> returns
  true and \<open>Find\<close> then returns the sector added; a second \<open>Add\<close> of the name, with any
  sector and flag, returns false and leaves the directory as it is; \<open>Remove\<close> then returns
  true, after which \<open>Find\<close> returns \<open>-1\<close> and a second \<open>Remove\<close> returns false and leaves
  the directory as it is. After \<open>tableSize\<close> successful calls of \<open>Add\<close> in a row every
  further \<open>Add\<close> returns false.
\<close>

theorem Directory_Add_Find_Remove:
  assumes ok: "dir_ok D"
  shows "(FindIndex c D nm = - 1 \<and> (\<exists>j<length (table D). \<not> inUse (table D ! j)) \<longrightarrow>
            (\<exists>D1 D2. Add c D nm s b = (True, D1) \<and> Find c D1 nm = s \<and>
               Add c D1 nm s2 b2 = (False, D1) \<and>
               Remove c D1 m nm = (True, D2, m) \<and> Find c D2 nm = - 1 \<and>
               Remove c D2 m nm = (False, D2, m))) \<and>
         (Add_all c D ops = (True, D') \<and> int (length ops) = tableSize D \<longrightarrow>
            Add c D' nm s b = (False, D'))"
proof (intro conjI impI)
  assume h: "FindIndex c D nm = - 1 \<and> (\<exists>j<length (table D). \<not> inUse (table D ! j))"
  then have absent: "\<forall>k. 0 \<le> k \<and> k < tableSize D \<longrightarrow> \<not> matches c D nm k"
    by (simp add: FindIndex_absent)
  from h obtain j0 where "j0 < length (table D)" "\<not> inUse (table D ! j0)" by blast
  with ok have "\<exists>j. 0 \<le> j \<and> j < tableSize D \<and> \<not> inUse (table D ! nat j)"
    by (intro exI [of _ "int j0"]) (simp add: dir_ok_def)
  from Add_loop_first_free [OF _ this, of c nm s b] obtain j where
    j: "0 \<le> j" "j < tableSize D" "\<not> inUse (table D ! nat j)" and
    al: "Add_loop c D nm s b 0 =
      (True, D\<lparr>table := (table D)[nat j := claimed c (table D ! nat j) nm s b]\<rparr>)"
    by auto
  define e1 where "e1 = claimed c (table D ! nat j) nm s b"
  define D1 where "D1 = D\<lparr>table := (table D)[nat j := e1]\<rparr>"
  define D2 where "D2 = D1\<lparr>table := (table D1)[nat j := released (table D1 ! nat j)]\<rparr>"
  from j ok have jl: "nat j < length (table D)" by (simp add: dir_ok_def)
  have ts: "tableSize D1 = tableSize D" "tableSize D2 = tableSize D"
    "length (table D1) = length (table D)"
    by (simp_all add: D1_def D2_def)
  have e1: "inUse e1" "sector e1 = s" "strncmp (name e1) nm (FileNameMaxLen c) = 0"
    by (simp_all add: e1_def claimed_def strncmp_strncpy)
  have inl: "nat k < length (table D)" if "0 \<le> k" "k < tableSize D" for k
    using that ok by (simp add: dir_ok_def)
  have add: "Add c D nm s b = (True, D1)"
    using h al by (simp add: Add_def D1_def e1_def)
  have m1: "matches c D1 nm j"
    unfolding D1_def using matches_update [OF jl j(1)] e1 by simp
  have o1: "\<forall>k. 0 \<le> k \<and> k < tableSize D1 \<and> k \<noteq> j \<longrightarrow> \<not> matches c D1 nm k"
  proof (intro allI impI)
    fix k assume k: "0 \<le> k \<and> k < tableSize D1 \<and> k \<noteq> j"
    with ts have kk: "0 \<le> k" "k < tableSize D" "nat k \<noteq> nat j" using j(1) by auto
    from matches_update [OF inl [OF kk(1,2)] kk(1), of c "nat j" e1 nm] kk absent
    show "\<not> matches c D1 nm k" by (simp add: D1_def)
  qed
  from j ts have "0 \<le> j" "j < tableSize D1" by simp_all
  from FindIndex_only [OF this m1 o1] have fi1: "FindIndex c D1 nm = j" .
  have t1: "table D1 ! nat j = e1" using jl by (simp add: D1_def)
  from fi1 j(1) t1 e1 have find1: "Find c D1 nm = s"
    by (auto simp: Find_def Let_def)
  from fi1 j(1) have add2: "Add c D1 nm s2 b2 = (False, D1)"
    by (auto simp: Add_def)
  from fi1 j(1) have rem1: "Remove c D1 m nm = (True, D2, m)"
    by (auto simp: Remove_def Let_def D2_def released_def)
  have "\<forall>k. 0 \<le> k \<and> k < tableSize D2 \<longrightarrow> \<not> matches c D2 nm k"
  proof (intro allI impI)
    fix k assume k: "0 \<le> k \<and> k < tableSize D2"
    with ts have kk: "0 \<le> k" "k < tableSize D1" "nat k < length (table D1)"
      using inl [of k] by simp_all
    show "\<not> matches c D2 nm k"
    proof (cases "k = j")
      case True
      with matches_update [OF kk(3,1), of c "nat j" "released (table D1 ! nat j)" nm]
      show ?thesis by (simp add: D2_def released_def)
    next
      case False
      with kk(1) j(1) have "nat k \<noteq> nat j" by simp
      with matches_update [OF kk(3,1), of c "nat j" "released (table D1 ! nat j)" nm] o1 kk False
      show ?thesis by (simp add: D2_def)
    qed
  qed
  then have fi2: "FindIndex c D2 nm = - 1" by (simp add: FindIndex_absent)
  then have find2: "Find c D2 nm = - 1" and rem2: "Remove c D2 m nm = (False, D2, m)"
    by (simp_all add: Find_def Remove_def Let_def)
  from add find1 add2 rem1 find2 rem2
  show "\<exists>D1 D2. Add c D nm s b = (True, D1) \<and> Find c D1 nm = s \<and>
               Add c D1 nm s2 b2 = (False, D1) \<and>
               Remove c D1 m nm = (True, D2, m) \<and> Find c D2 nm = - 1 \<and>
               Remove c D2 m nm = (False, D2, m)"
    by blast
next
  assume h: "Add_all c D ops = (True, D') \<and> int (length ops) = tableSize D"
  from h have aa: "Add_all c D ops = (True, D')" ..
  from Add_all_used [OF ok aa]
  have u: "dir_ok D'" "used D' = used D + length ops" "tableSize D' = tableSize D" by simp_all
  have "used D' \<le> length (table D')" by (simp add: used_def)
  with u h have "used D' = length (table D')" by (simp add: dir_ok_def)
  from Add_full [OF u(1) this] show "Add c D' nm s b = (False, D')" .
qed

lemma dir_ok_new: "0 \<le> n \<Longrightarrow> dir_ok (Directory_new c n)"
  by (simp add: dir_ok_def Directory_new_def)

lemma scenario_absent: "FindIndex cfg (Directory_new cfg 10) ''foo.txt'' = - 1"
  by code_simp

lemma scenario_two_adds:
  "fst (Add_all cfg (Directory_new cfg 2) [(''a'', 1, False), (''b'', 2, False)])"
  by code_simp

theorem Directory_Add_Find_Remove_witness:
  "(\<exists>D1 D2. Add cfg (Directory_new cfg 10) ''foo.txt'' 17 False = (True, D1) \<and>
      Find cfg D1 ''foo.txt'' = 17 \<and> Add cfg D1 ''foo.txt'' 22 False = (False, D1) \<and>
      Remove cfg D1 machine_example ''foo.txt'' = (True, D2, machine_example) \<and>
      Find cfg D2 ''foo.txt'' = - 1 \<and>
      Remove cfg D2 machine_example ''foo.txt'' = (False, D2, machine_example)) \<and>
   (\<exists>D'. Add_all cfg (Directory_new cfg 2) [(''a'', 1, False), (''b'', 2, False)] = (True, D') \<and>
      Add cfg D' ''c'' 3 False = (False, D'))"
proof -
  have ok10: "dir_ok (Directory_new cfg 10)" and ok2: "dir_ok (Directory_new cfg 2)"
    by (simp_all add: dir_ok_new)
  have free: "\<exists>j<length (table (Directory_new cfg 10)). \<not> inUse (table (Directory_new cfg 10) ! j)"
    by (intro exI [of _ 0]) (simp add: Directory_new_def DirectoryEntry_new_def)
  from scenario_two_adds obtain D' where
    aa: "Add_all cfg (Directory_new cfg 2) [(''a'', 1, False), (''b'', 2, False)] = (True, D')"
    by (cases "Add_all cfg (Directory_new cfg 2) [(''a'', 1, False), (''b'', 2, False)]") auto
  have len: "int (length [(''a'', 1::int, False), (''b'', 2, False)]) = tableSize (Directory_new cfg 2)"
    by (simp add: Directory_new_def)
  from Directory_Add_Find_Remove [OF ok10, where c = cfg and nm = "''foo.txt''" and s = 17
      and b = False and ?s2.0 = 22 and ?b2.0 = False and m = machine_example]
    scenario_absent free
  have first: "\<exists>D1 D2. Add cfg (Directory_new cfg 10) ''foo.txt'' 17 False = (True, D1) \<and>
      Find cfg D1 ''foo.txt'' = 17 \<and> Add cfg D1 ''foo.txt'' 22 False = (False, D1) \<and>
      Remove cfg D1 machine_example ''foo.txt'' = (True, D2, machine_example) \<and>
      Find cfg D2 ''foo.txt'' = - 1 \<and>
      Remove cfg D2 machine_example ''foo.txt'' = (False, D2, machine_example)"
    by blast
  from Directory_Add_Find_Remove [OF ok2, where c = cfg and nm = "''c''" and s = 3 and b = False
      and ops = "[(''a'', 1, False), (''b'', 2, False)]" and D' = D'] aa len
  have "Add cfg D' ''c'' 3 False = (False, D')" by blast
  with aa first show ?thesis by blast
qed

text \<open>
  Claim C8. When the name is present, \<open>Remove\<close> returns true; the slot \<open>FindIndex\<close> gives
  was in use and is no longer, its name buffer holds \<open>NUL\<close>s only, its sector and directory
  flag stay; every other slot and the size of the table stay; the machine state, that is the
  bitmap and the sector store, is returned as it was.
\<close>

theorem Remove_frame:
  assumes ok: "dir_ok D" and present: "FindIndex c D nm \<noteq> - 1"
  shows "\<exists>i D'. i < length (table D) \<and> FindIndex c D nm = int i \<and> inUse (table D ! i) \<and>
           Remove c D m nm = (True, D', m) \<and>
           tableSize D' = tableSize D \<and> length (table D') = length (table D) \<and>
           (\<forall>j<length (table D). j \<noteq> i \<longrightarrow> table D' ! j = table D ! j) \<and>
           \<not> inUse (table D' ! i) \<and>
           name (table D' ! i) = replicate (length (name (table D ! i))) NUL \<and>
           sector (table D' ! i) = sector (table D ! i) \<and>
           isDirectory (table D' ! i) = isDirectory (table D ! i)"
proof -
  define r where "r = FindIndex c D nm"
  from FindIndex_range [OF present] have r: "0 \<le> r" "r < tableSize D" "matches c D nm r"
    by (simp_all add: r_def)
  with ok have rl: "nat r < length (table D)" by (simp add: dir_ok_def)
  define D' where "D' = D\<lparr>table := (table D)[nat r := released (table D ! nat r)]\<rparr>"
  from present have rem: "Remove c D m nm = (True, D', m)"
    by (simp add: Remove_def Let_def D'_def released_def r_def)
  from r(3) have "inUse (table D ! nat r)" by (simp add: matches_def)
  with rl r(1) rem show ?thesis
    by (intro exI [of _ "nat r"] exI [of _ D']) (simp add: D'_def released_def r_def)
qed

lemma dir_example_ok: "dir_ok dir_example"
  by code_simp

lemma dir_example_present: "FindIndex cfg dir_example ''foo.txt'' \<noteq> - 1"
  by code_simp

theorem Remove_frame_witness:
  "\<exists>i D'. i < length (table dir_example) \<and> FindIndex cfg dir_example ''foo.txt'' = int i \<and>
     Remove cfg dir_example machine_example ''foo.txt'' = (True, D', machine_example) \<and>
     \<not> inUse (table D' ! i) \<and> sector (table D' ! i) = sector (table dir_example ! i) \<and>
     (\<forall>j<length (table dir_example). j \<noteq> i \<longrightarrow> table D' ! j = table dir_example ! j)"
  using Remove_frame [OF dir_example_ok dir_example_present, of machine_example] by blast

lemma Add_cases:
  assumes ok: "dir_ok D"
  shows "Add c D nm s b = (False, D) \<or>
    (\<exists>j<length (table D). \<not> inUse (table D ! j) \<and>
       Add c D nm s b = (True, D\<lparr>table := (table D)[j := claimed c (table D ! j) nm s b]\<rparr>))"
proof (cases "FindIndex c D nm = - 1")
  case False
  then show ?thesis by (simp add: Add_def)
next
  case absent: True
  show ?thesis
  proof (cases "\<exists>j. 0 \<le> j \<and> j < tableSize D \<and> \<not> inUse (table D ! nat j)")
    case True
    from Add_loop_first_free [OF _ True, of c nm s b] obtain j where
      j: "0 \<le> j" "j < tableSize D" "\<not> inUse (table D ! nat j)"
        "Add_loop c D nm s b 0 =
          (True, D\<lparr>table := (table D)[nat j := claimed c (table D ! nat j) nm s b]\<rparr>)"
      by auto
    from j(1,2) ok have "nat j < length (table D)" by (simp add: dir_ok_def)
    with j absent show ?thesis by (auto simp: Add_def)
  next
    case False
    then have "\<forall>j. 0 \<le> j \<and> j < tableSize D \<longrightarrow> inUse (table D ! nat j)" by blast
    from Add_loop_full [OF _ this, of c nm s b] absent show ?thesis by (simp add: Add_def)
  qed
qed

lemma Remove_cases:
  assumes ok: "dir_ok D"
  shows "Remove c D m nm = (False, D, m) \<or>
    (\<exists>j<length (table D). inUse (table D ! j) \<and>
       Remove c D m nm = (True, D\<lparr>table := (table D)[j := released (table D ! j)]\<rparr>, m))"
proof (cases "FindIndex c D nm = - 1")
  case True
  then show ?thesis by (simp add: Remove_def Let_def)
next
  case False
  from FindIndex_range [OF False] ok
  have "nat (FindIndex c D nm) < length (table D)" "inUse (table D ! nat (FindIndex c D nm))"
    by (auto simp: dir_ok_def matches_def)
  with False show ?thesis
    by (intro disjI2 exI [of _ "nat (FindIndex c D nm)"]) (simp add: Remove_def Let_def released_def)
qed

lemma free_slots_ok_step:
  assumes inv: "free_slots_ok c D g"
  shows "free_slots_ok c (apply_op c m D op)
           (\<lambda>i. if inUse (table D ! i) then slot_values D i else g i)"
proof -
  from inv have ok: "dir_ok D" by (simp add: free_slots_ok_def)
  show ?thesis
  proof (cases op)
    case (OpAdd nm s b)
    from Add_cases [OF ok, of c nm s b] show ?thesis
    proof
      assume "Add c D nm s b = (False, D)"
      with OpAdd inv show ?thesis by (simp add: free_slots_ok_def)
    next
      assume "\<exists>j<length (table D). \<not> inUse (table D ! j) \<and>
        Add c D nm s b = (True, D\<lparr>table := (table D)[j := claimed c (table D ! j) nm s b]\<rparr>)"
      then obtain j where j: "j < length (table D)" "\<not> inUse (table D ! j)"
        "Add c D nm s b = (True, D\<lparr>table := (table D)[j := claimed c (table D ! j) nm s b]\<rparr>)"
        by blast
      from inv j(1) have "length (name (table D ! j)) = FileNameMaxLen c"
        by (simp add: free_slots_ok_def)
      then have "length (name (claimed c (table D ! j) nm s b)) = FileNameMaxLen c"
        "inUse (claimed c (table D ! j) nm s b)"
        by (simp_all add: claimed_def length_strncpy)
      with OpAdd inv j show ?thesis
        by (auto simp: free_slots_ok_def dir_ok_def nth_list_update slot_values_def)
    qed
  next
    case (OpRemove nm)
    from Remove_cases [OF ok, of c m nm] show ?thesis
    proof
      assume "Remove c D m nm = (False, D, m)"
      with OpRemove inv show ?thesis by (simp add: free_slots_ok_def)
    next
      assume "\<exists>j<length (table D). inUse (table D ! j) \<and>
        Remove c D m nm = (True, D\<lparr>table := (table D)[j := released (table D ! j)]\<rparr>, m)"
      then obtain j where j: "j < length (table D)" "inUse (table D ! j)"
        "Remove c D m nm = (True, D\<lparr>table := (table D)[j := released (table D ! j)]\<rparr>, m)"
        by blast
      from inv j(1) have "length (name (table D ! j)) = FileNameMaxLen c"
        by (simp add: free_slots_ok_def)
      then have "name (released (table D ! j)) = replicate (FileNameMaxLen c) NUL"
        "sector (released (table D ! j)) = sector (table D ! j)"
        "isDirectory (released (table D ! j)) = isDirectory (table D ! j)"
        by (simp_all add: released_def)
      with OpRemove inv j show ?thesis
        by (auto simp: free_slots_ok_def dir_ok_def nth_list_update slot_values_def)
    qed
  qed
qed

lemma free_slots_ok_run:
  "free_slots_ok c D g \<Longrightarrow>
     dir_ok (foldl (apply_op c m) D ops) \<and>
     (\<forall>i<length (table (foldl (apply_op c m) D ops)).
        \<not> inUse (table (foldl (apply_op c m) D ops) ! i) \<longrightarrow>
          name (table (foldl (apply_op c m) D ops) ! i) = replicate (FileNameMaxLen c) NUL \<and>
          slot_values (foldl (apply_op c m) D ops) i = last_in_use c m D g ops i)"
proof (induction ops arbitrary: D g)
  case Nil
  then show ?case by (simp add: free_slots_ok_def)
next
  case (Cons op ops)
  from Cons.IH [OF free_slots_ok_step [OF Cons.prems]] show ?case by simp
qed

text \<open>
  Claim C9. In the directory reached from a new directory by any sequence of \<open>Add\<close> and
  \<open>Remove\<close> calls, a slot not in use has a name buffer of \<open>FileNameMaxLen\<close> \<open>NUL\<close>
  bytes, and its sector and directory flag are those it had when it was last in use, \<open>-1\<close>
  and false when it never was.
\<close>

theorem unused_slots:
  assumes "0 \<le> n"
  shows "\<forall>i<length (table (foldl (apply_op c m) (Directory_new c n) ops)).
        \<not> inUse (table (foldl (apply_op c m) (Directory_new c n) ops) ! i) \<longrightarrow>
          name (table (foldl (apply_op c m) (Directory_new c n) ops) ! i) =
            replicate (FileNameMaxLen c) NUL \<and>
          slot_values (foldl (apply_op c m) (Directory_new c n) ops) i =
            last_in_use c m (Directory_new c n) (\<lambda>i. (- 1, False)) ops i"
proof -
  from assms have "free_slots_ok c (Directory_new c n) (\<lambda>i. (- 1, False))"
    by (simp add: free_slots_ok_def dir_ok_def Directory_new_def DirectoryEntry_new_def slot_values_def)
  from free_slots_ok_run [OF this] show ?thesis by blast
qed

lemma ops_example:
  "0 < length (table (foldl (apply_op cfg machine_example) (Directory_new cfg 2)
      [OpAdd ''a'' 5 True, OpRemove ''a''])) \<and>
   \<not> inUse (table (foldl (apply_op cfg machine_example) (Directory_new cfg 2)
      [OpAdd ''a'' 5 True, OpRemove ''a'']) ! 0) \<and>
   last_in_use cfg machine_example (Directory_new cfg 2) (\<lambda>i. (- 1, False))
      [OpAdd ''a'' 5 True, OpRemove ''a''] 0 = (5, True)"
  by code_simp

theorem unused_slots_witness:
  "name (table (foldl (apply_op cfg machine_example) (Directory_new cfg 2)
      [OpAdd ''a'' 5 True, OpRemove ''a'']) ! 0) = replicate (FileNameMaxLen cfg) NUL \<and>
   slot_values (foldl (apply_op cfg machine_example) (Directory_new cfg 2)
      [OpAdd ''a'' 5 True, OpRemove ''a'']) 0 = (5, True)"
proof -
  have n: "(0::int) \<le> 2" by simp
  note U = unused_slots [OF n, of cfg machine_example "[OpAdd ''a'' 5 True, OpRemove ''a'']",
      rule_format, of 0]
  from ops_example have l: "0 < length (table (foldl (apply_op cfg machine_example)
      (Directory_new cfg 2) [OpAdd ''a'' 5 True, OpRemove ''a'']))" by (rule conjunct1)
  from ops_example have u: "\<not> inUse (table (foldl (apply_op cfg machine_example)
      (Directory_new cfg 2) [OpAdd ''a'' 5 True, OpRemove ''a'']) ! 0)" by (elim conjE)
  from ops_example have v: "last_in_use cfg machine_example (Directory_new cfg 2)
      (\<lambda>i. (- 1, False)) [OpAdd ''a'' 5 True, OpRemove ''a''] 0 = (5, True)" by (elim conjE)
  from U [OF l u] show ?thesis unfolding v .
qed

end
